theory Spec2Isabelle
  imports Complex_Main "HOL-Library.AList"
begin

section \<open>Errors raised by the runner\<close>

text \<open>
  Every \<^verbatim>\<open>raise\<close>, failing \<^verbatim>\<open>assert\<close> and library exception of
  \<^verbatim>\<open>neuronpedia_runner.py\<close> that the modelled functions can reach is one constructor.
\<close>

datatype error =
    ConflictingEncoderFlags  \<comment> \<open>ValueError: only one of the three encoder flags can be set\<close>
  | MissingCltLayerIdx       \<comment> \<open>ValueError: clt-layer-idx must be specified\<close>
  | NoModelId                \<comment> \<open>ValueError: could not determine model_id\<close>
  | OutputDirIsFile          \<comment> \<open>ValueError: output directory exists and is a file\<close>
  | PrefixSuffixTooLong      \<comment> \<open>ValueError: prefix and suffix are too long\<close>
  | LengthAssertion          \<comment> \<open>\<^verbatim>\<open>assert tokens.shape[1] == original_length\<close>\<close>
  | DuplicateRowsAssertion   \<comment> \<open>\<^verbatim>\<open>assert not has_duplicate_rows(tokens)\<close>\<close>
  | ZeroDivisionError        \<comment> \<open>Python \<^verbatim>\<open>/\<close> and \<^verbatim>\<open>//\<close> by zero\<close>
  | SectionsNotPositive      \<comment> \<open>numpy: number sections must be larger than 0\<close>
  | CatEmptyList             \<comment> \<open>torch.cat of an empty list of tensors\<close>
  | CatSizeMismatch          \<comment> \<open>torch.cat of rows of different widths\<close>
  | ColumnIndexError         \<comment> \<open>\<^verbatim>\<open>tokens[:, 0]\<close> on a tensor with no column\<close>
  | SourceExhausted          \<comment> \<open>the streaming token source has no further batch\<close>
  | LoadFailed               \<comment> \<open>\<^verbatim>\<open>torch.load\<close> of a file that holds no tensor\<close>
  | ExtractionFailed         \<comment> \<open>the feature-extraction or serialisation collaborator raised\<close>

section \<open>FeatureBatchPlanner\<close>

text \<open>
  \<^verbatim>\<open>get_alive_features\<close>: \<^verbatim>\<open>list(range(self.sae.cfg.d_sae))\<close>; the sparsity filter
  is commented out in the source.
\<close>

definition get_alive_features :: "nat \<Rightarrow> nat list" where
  "get_alive_features d_sae = [0..<d_sae]"

text \<open>
  \<^verbatim>\<open>numpy.array_split(ary, Nsections)\<close> with an integer section count, as numpy
  implements it: \<^verbatim>\<open>Neach_section, extras = divmod(Ntotal, Nsections)\<close>, the section sizes
  are \<^verbatim>\<open>[0] + extras * [Neach_section + 1] + (Nsections - extras) * [Neach_section]\<close>,
  the division points their cumulative sum, and section \<open>i\<close> is
  \<^verbatim>\<open>ary[div_points[i] : div_points[i + 1]]\<close>.
\<close>

fun cumsum_acc :: "nat \<Rightarrow> nat list \<Rightarrow> nat list" where
  "cumsum_acc acc [] = []"
| "cumsum_acc acc (x # xs) = (acc + x) # cumsum_acc (acc + x) xs"

definition cumsum :: "nat list \<Rightarrow> nat list" where
  "cumsum xs = cumsum_acc 0 xs"

definition slice :: "nat \<Rightarrow> nat \<Rightarrow> 'a list \<Rightarrow> 'a list" where
  "slice st en ary = take (en - st) (drop st ary)"

definition array_split :: "'a list \<Rightarrow> int \<Rightarrow> error + 'a list list" where
  "array_split ary indices_or_sections =
     (if indices_or_sections \<le> 0 then Inl SectionsNotPositive
      else
        let Ntotal = length ary;
            Nsections = nat indices_or_sections;
            Neach_section = Ntotal div Nsections;
            extras = Ntotal mod Nsections;
            section_sizes = [0] @ replicate extras (Neach_section + 1)
                                @ replicate (Nsections - extras) Neach_section;
            div_points = cumsum section_sizes
        in Inr (map (\<lambda>i. slice (div_points ! i) (div_points ! (i + 1)) ary) [0..<Nsections]))"

text \<open>
  \<^verbatim>\<open>np.ceil(len(feature_idx) / n_features_at_a_time).astype(int)\<close>: Python's true
  division raises on a zero divisor; the ceiling of the quotient of two integers is
  \<open>- ((- a) div b)\<close> with HOL's (and Python's) flooring \<open>div\<close>.  The float rounding of
  the source is exact as long as both numbers are below \<open>2 ^ 53\<close>.
\<close>

definition ceil_div :: "int \<Rightarrow> int \<Rightarrow> error + int" where
  "ceil_div a b = (if b = 0 then Inl ZeroDivisionError else Inr (- ((- a) div b)))"

definition get_feature_batches :: "nat list \<Rightarrow> int \<Rightarrow> error + nat list list" where
  "get_feature_batches target_feature_indexes n_features_at_a_time =
     (case ceil_div (int (length target_feature_indexes)) n_features_at_a_time of
        Inl e \<Rightarrow> Inl e
      | Inr n_subarrays \<Rightarrow> array_split target_feature_indexes n_subarrays)"

text \<open>The plan as \<^verbatim>\<open>run\<close> computes it: all features, then the split.\<close>

definition feature_batch_plan :: "nat \<Rightarrow> int \<Rightarrow> error + nat list list" where
  "feature_batch_plan d_sae n_features_at_a_time =
     get_feature_batches (get_alive_features d_sae) n_features_at_a_time"

text \<open>
  Cutting a list into consecutive pieces of given sizes: the specification against which
  the division-point slicing of \<open>array_split\<close> is compared.
\<close>

fun chunks :: "nat list \<Rightarrow> 'a list \<Rightarrow> 'a list list" where
  "chunks [] xs = []"
| "chunks (s # ss) xs = take s xs # chunks ss (drop s xs)"

section \<open>Tensors of token ids\<close>

text \<open>
  A two-dimensional integer tensor is its width (\<^verbatim>\<open>shape[1]\<close>) and its rows; the width
  is kept apart from the rows because a tensor without rows still has one.  A well-formed
  tensor has rows of that width only.
\<close>

record tensor2d =
  n_cols :: nat
  rows :: "int list list"

definition wf_tensor :: "tensor2d \<Rightarrow> bool" where
  "wf_tensor t = list_all (\<lambda>r. length r = n_cols t) (rows t)"

text \<open>Python's \<^verbatim>\<open>xs[:k]\<close>: a negative \<open>k\<close> counts from the end.\<close>

definition py_slice_to :: "int \<Rightarrow> 'a list \<Rightarrow> 'a list" where
  "py_slice_to k xs = (if 0 \<le> k then take (nat k) xs else take (length xs - nat (- k)) xs)"

text \<open>\<^verbatim>\<open>tokens[:, :k]\<close>.\<close>

definition slice_cols :: "int \<Rightarrow> tensor2d \<Rightarrow> tensor2d" where
  "slice_cols k t =
     \<lparr>n_cols = length (py_slice_to k (replicate (n_cols t) ())),
      rows = map (py_slice_to k) (rows t)\<rparr>"

text \<open>\<^verbatim>\<open>torch.cat([a, b], dim=1)\<close> for two tensors with the same number of rows.\<close>

definition cat_cols :: "tensor2d \<Rightarrow> tensor2d \<Rightarrow> tensor2d" where
  "cat_cols a b = \<lparr>n_cols = n_cols a + n_cols b, rows = map (\<lambda>(x, y). x @ y) (zip (rows a) (rows b))\<rparr>"

text \<open>
  \<^verbatim>\<open>torch.cat(ts, dim=0)\<close> of a list of one-row tensors (\<^verbatim>\<open>seq.unsqueeze(0)\<close>): it
  raises on the empty list and on rows of different widths.
\<close>

definition torch_cat_rows :: "int list list \<Rightarrow> error + tensor2d" where
  "torch_cat_rows ts =
     (case ts of
        [] \<Rightarrow> Inl CatEmptyList
      | t # _ \<Rightarrow> if list_all (\<lambda>r. length r = length t) ts
                 then Inr \<lparr>n_cols = length t, rows = ts\<rparr>
                 else Inl CatSizeMismatch)"

text \<open>\<^verbatim>\<open>xs[perm]\<close>: the rows of \<open>xs\<close> picked in the order of the index tensor.\<close>

definition index_rows :: "'a list \<Rightarrow> nat list \<Rightarrow> 'a list" where
  "index_rows xs perm = map (\<lambda>i. xs ! i) perm"

section \<open>The streaming token source\<close>

text \<open>
  \<^verbatim>\<open>ActivationsStore\<close> is an external collaborator.  It is modelled by its batch size and
  the batches it will still deliver; \<^verbatim>\<open>get_batch_tokens\<close> hands out the next one and
  raises when none is left.  A source that never runs dry is a list longer than the
  number of draws of the run.
\<close>

record activations_store =
  store_batch_size_prompts :: int
  stream :: "int list list list"

definition get_batch_tokens :: "activations_store \<Rightarrow> error + (int list list \<times> activations_store)" where
  "get_batch_tokens st =
     (case stream st of
        [] \<Rightarrow> Inl SourceExhausted
      | b # bs \<Rightarrow> Inr (b, st\<lparr>stream := bs\<rparr>))"

section \<open>Run configuration and runner\<close>

text \<open>The fields of \<^verbatim>\<open>NeuronpediaRunnerConfig\<close> that the modelled functions read.\<close>

record runner_config =
  use_transcoder :: bool
  use_skip_transcoder :: bool
  use_clt :: bool
  clt_layer_idx :: "int option"
  prefix_tokens :: "int list option"
  suffix_tokens :: "int list option"
  shuffle_tokens :: bool
  n_prompts_total :: int
  n_features_at_a_time :: int
  start_batch :: int
  end_batch :: "int option"
  outputs_dir :: string
  use_wandb :: bool
  sae_set :: string
  np_sae_id_suffix :: "string option"
  model_id :: "string option"

text \<open>
  The runner object after \<^verbatim>\<open>__init__\<close>: its configuration, the two fields of
  \<^verbatim>\<open>self.sae.cfg\<close> that are read later, and the token source.
\<close>

record runner =
  cfg :: runner_config
  sae_d_sae :: nat
  sae_prepend_bos :: bool
  activations_store :: activations_store

text \<open>\<^verbatim>\<open>__init__\<close>, lines 73 to 85: the validation of the encoder flags.\<close>

definition validate_flags :: "runner_config \<Rightarrow> error option" where
  "validate_flags c =
     (let flags = [use_transcoder c, use_skip_transcoder c, use_clt c] in
      if (1::nat) < sum_list (map (\<lambda>b. if b then 1 else 0) flags) then Some ConflictingEncoderFlags
      else if use_clt c \<and> clt_layer_idx c = None then Some MissingCltLayerIdx
      else None)"

section \<open>TokenCorpusBuilder\<close>

text \<open>
  \<^verbatim>\<open>hash_tensor\<close>: \<^verbatim>\<open>tuple(tensor.cpu().numpy().flatten().tolist())\<close>, the values of
  the row in order.
\<close>

definition hash_tensor :: "int list \<Rightarrow> int list" where
  "hash_tensor tensor = tensor"

text \<open>The inner loop of \<^verbatim>\<open>generate_tokens\<close>: \<^verbatim>\<open>for seq in batch_tokens\<close>.\<close>

fun keep_unique ::
    "int list list \<Rightarrow> int list set \<times> int list list \<Rightarrow> int list set \<times> int list list" where
  "keep_unique [] st = st"
| "keep_unique (seq # rest) (unique_sequences, all_tokens_list) =
     (let seq_hash = hash_tensor seq in
      if seq_hash \<notin> unique_sequences
      then keep_unique rest (insert seq_hash unique_sequences, all_tokens_list @ [seq])
      else keep_unique rest (unique_sequences, all_tokens_list))"

text \<open>
  The outer loop, \<^verbatim>\<open>for _ in range(n_prompts // store_batch_size_prompts)\<close>, with the
  number of iterations left as the recursion argument.  \<^verbatim>\<open>torch.randperm\<close> is random;
  it is the parameter \<open>randperm\<close>, which maps the number of earlier calls and the size to
  the permutation drawn.
\<close>

fun pull_batches ::
    "(nat \<Rightarrow> nat \<Rightarrow> nat list) \<Rightarrow> bool \<Rightarrow> int \<Rightarrow> nat \<Rightarrow> activations_store \<times> nat
     \<Rightarrow> int list set \<times> int list list
     \<Rightarrow> error + (int list list \<times> activations_store \<times> nat)" where
  "pull_batches randperm shuffle n_prompts 0 (st, c) (unique_sequences, all_tokens_list) =
     Inr (all_tokens_list, st, c)"
| "pull_batches randperm shuffle n_prompts (Suc remaining) (st, c)
       (unique_sequences, all_tokens_list) =
     (case get_batch_tokens st of
        Inl e \<Rightarrow> Inl e
      | Inr (batch_tokens, st') \<Rightarrow>
          let shuffled = (if shuffle
                          then index_rows batch_tokens (randperm c (length batch_tokens))
                          else batch_tokens);
              c' = (if shuffle then c + 1 else c);
              kept = keep_unique shuffled (unique_sequences, all_tokens_list)
          in if n_prompts \<le> int (length (snd kept)) then Inr (snd kept, st', c')
             else pull_batches randperm shuffle n_prompts remaining (st', c') kept)"

definition generate_tokens ::
    "runner \<Rightarrow> (nat \<Rightarrow> nat \<Rightarrow> nat list) \<Rightarrow> activations_store \<Rightarrow> int
     \<Rightarrow> error + (tensor2d \<times> activations_store \<times> nat)" where
  "generate_tokens r randperm st n_prompts =
     (if store_batch_size_prompts st = 0 then Inl ZeroDivisionError
      else
        case pull_batches randperm (shuffle_tokens (cfg r)) n_prompts
               (nat (n_prompts div store_batch_size_prompts st)) (st, 0) ({}, []) of
          Inl e \<Rightarrow> Inl e
        | Inr (all_tokens_list, st', c) \<Rightarrow>
            (case torch_cat_rows all_tokens_list of
               Inl e \<Rightarrow> Inl e
             | Inr joined \<Rightarrow>
                 let all_tokens = joined\<lparr>rows := py_slice_to n_prompts (rows joined)\<rparr>
                 in if shuffle_tokens (cfg r)
                    then Inr (all_tokens\<lparr>rows := index_rows (rows all_tokens)
                                                   (randperm c (length (rows all_tokens)))\<rparr>,
                              st', c + 1)
                    else Inr (all_tokens, st', c)))"

section \<open>SequenceAugmenter\<close>

definition add_prefix_suffix_to_tokens :: "runner \<Rightarrow> tensor2d \<Rightarrow> error + tensor2d" where
  "add_prefix_suffix_to_tokens r tokens =
     (let original_length = n_cols tokens in
      if n_cols tokens = 0 then Inl ColumnIndexError
      else
        let bos_tokens = map hd (rows tokens);
            prefix_length = (case prefix_tokens (cfg r) of None \<Rightarrow> 0 | Some p \<Rightarrow> length p);
            suffix_length = (case suffix_tokens (cfg r) of None \<Rightarrow> 0 | Some s \<Rightarrow> length s)
        in
        if prefix_tokens (cfg r) = None \<and> suffix_tokens (cfg r) = None then Inr tokens
        else
          let keep_length = int original_length - int prefix_length - int suffix_length in
          if keep_length \<le> 0 then Inl PrefixSuffixTooLong
          else
            let trimmed = slice_cols (keep_length - (if sae_prepend_bos r then 1 else 0)) tokens;
                with_prefix =
                  (case prefix_tokens (cfg r) of
                     Some (p # ps) \<Rightarrow>
                       let prefix_repeated =
                             \<lparr>n_cols = length (p # ps),
                              rows = replicate (length (rows trimmed)) (p # ps)\<rparr>;
                           prefix_repeated' =
                             (if sae_prepend_bos r
                              then cat_cols \<lparr>n_cols = 1, rows = map (\<lambda>b. [b]) bos_tokens\<rparr>
                                            prefix_repeated
                              else prefix_repeated)
                       in cat_cols prefix_repeated' trimmed
                   | _ \<Rightarrow> trimmed);
                with_suffix =
                  (case suffix_tokens (cfg r) of
                     Some (s # ss) \<Rightarrow>
                       cat_cols with_prefix
                         \<lparr>n_cols = length (s # ss),
                          rows = replicate (length (rows with_prefix)) (s # ss)\<rparr>
                   | _ \<Rightarrow> with_prefix)
            in if n_cols with_suffix = original_length then Inr with_suffix
               else Inl LengthAssertion)"

section \<open>Files, paths and observable events\<close>

text \<open>
  Python's \<^verbatim>\<open>str\<close> of an integer, used by the f-strings that build the paths.
\<close>

function str_nat :: "nat \<Rightarrow> string" where
  "str_nat n = (if n < 10 then [char_of (48 + n)]
                else str_nat (n div 10) @ [char_of (48 + n mod 10)])"
  by pat_completeness auto
termination
  by (relation "measure id") auto

declare str_nat.simps [simp del]

definition str_int :: "int \<Rightarrow> string" where
  "str_int i = (if i < 0 then ''-'' @ str_nat (nat (- i)) else str_nat (nat i))"

definition RUN_SETTINGS_FILE :: string where
  "RUN_SETTINGS_FILE = ''run_settings.json''"

definition run_settings_path :: "runner_config \<Rightarrow> string" where
  "run_settings_path c = outputs_dir c @ ''/'' @ RUN_SETTINGS_FILE"

definition skipped_indexes_path :: "runner_config \<Rightarrow> string" where
  "skipped_indexes_path c = outputs_dir c @ ''/skipped_indexes.json''"

definition tokens_file :: "runner_config \<Rightarrow> string" where
  "tokens_file c = outputs_dir c @ ''/tokens_'' @ str_int (n_prompts_total c) @ ''.pt''"

definition output_file :: "runner_config \<Rightarrow> nat \<Rightarrow> string" where
  "output_file c feature_batch_count =
     outputs_dir c @ ''/batch-'' @ str_nat feature_batch_count @ ''.json''"

text \<open>
  The output directory is a map from paths to the regular files there
  (\<^verbatim>\<open>os.path.isfile\<close> is membership).  The events are the calls that leave the
  runner: file writes and loads, token generation, the feature-extraction collaborator and
  the telemetry sink.
\<close>

datatype file_content =
    RunSettingsJson
  | SkippedIndexesJson "nat list"
  | TokensPt tensor2d
  | ArtifactJson string

type_synonym file_system = "string \<Rightarrow> file_content option"

datatype event =
    WriteFile string
  | LoadFile string
  | GenerateTokens
  | Extract nat "nat list"
  | WandbInit
  | WandbLog nat
  | WandbFinish

text \<open>The batch ordinals handed to the feature-extraction collaborator, in call order.\<close>

fun extract_calls :: "event list \<Rightarrow> nat list" where
  "extract_calls [] = []"
| "extract_calls (Extract i fs # es) = i # extract_calls es"
| "extract_calls (e # es) = extract_calls es"

text \<open>The paths written, in order.\<close>

fun writes :: "event list \<Rightarrow> string list" where
  "writes [] = []"
| "writes (WriteFile p # es) = p # writes es"
| "writes (e # es) = writes es"

section \<open>Token corpus persistence\<close>

text \<open>
  Modelled from the spec: \<^verbatim>\<open>has_duplicate_rows\<close> of \<^verbatim>\<open>sae_dashboard.utils_fns\<close> is
  not part of the reviewed source.  The spec says that the corpus is re-validated against
  the invariant that no two sequences are identical.
\<close>

definition has_duplicate_rows :: "tensor2d \<Rightarrow> bool" where
  "has_duplicate_rows t = (\<not> distinct (rows t))"

text \<open>
  \<^verbatim>\<open>get_tokens\<close>.  \<^verbatim>\<open>torch.load\<close> of a file that holds no tensor raises; the
  generated corpus is saved before the assertion is checked.
\<close>

definition check_no_duplicates :: "tensor2d \<Rightarrow> error + tensor2d" where
  "check_no_duplicates t = (if has_duplicate_rows t then Inl DuplicateRowsAssertion else Inr t)"

definition get_tokens ::
    "runner \<Rightarrow> (nat \<Rightarrow> nat \<Rightarrow> nat list) \<Rightarrow> file_system
     \<Rightarrow> (error + tensor2d) \<times> file_system \<times> event list" where
  "get_tokens r randperm fs =
     (case fs (tokens_file (cfg r)) of
        Some (TokensPt t) \<Rightarrow> (check_no_duplicates t, fs, [LoadFile (tokens_file (cfg r))])
      | Some _ \<Rightarrow> (Inl LoadFailed, fs, [LoadFile (tokens_file (cfg r))])
      | None \<Rightarrow>
          (case generate_tokens r randperm (activations_store r) (n_prompts_total (cfg r)) of
             Inl e \<Rightarrow> (Inl e, fs, [GenerateTokens])
           | Inr (t, st', c) \<Rightarrow>
               (check_no_duplicates t, fs(tokens_file (cfg r) \<mapsto> TokensPt t),
                [GenerateTokens, WriteFile (tokens_file (cfg r))])))"

section \<open>BatchExecutionController\<close>

text \<open>
  \<^verbatim>\<open>record_skipped_features\<close>: the indices of \<open>range(n_features)\<close> that are not target
  features, written to \<^verbatim>\<open>skipped_indexes.json\<close>.
\<close>

definition record_skipped_features ::
    "runner \<Rightarrow> nat \<Rightarrow> nat list \<Rightarrow> file_system \<Rightarrow> file_system \<times> event list" where
  "record_skipped_features r n_features target_feature_indexes fs =
     (let skipped_indexes = filter (\<lambda>i. i \<notin> set target_feature_indexes) [0..<n_features]
      in (fs(skipped_indexes_path (cfg r) \<mapsto> SkippedIndexesJson skipped_indexes),
          [WriteFile (skipped_indexes_path (cfg r))]))"

text \<open>
  The batch loop of \<^verbatim>\<open>run\<close> over \<^verbatim>\<open>enumerate(feature_idx)\<close>.  The two external calls
  of a running batch, \<^verbatim>\<open>SaeVisRunner(...).run\<close> and
  \<^verbatim>\<open>NeuronpediaConverter.convert_to_np_json\<close>, are the parameter \<open>extract\<close>: from the
  features of the batch and the token corpus to the serialised artifact, or \<open>None\<close> when
  either of them raises.  The result is the error that stopped the loop, if any, the files
  and the events.
\<close>

fun run_batches ::
    "runner_config \<Rightarrow> (nat list \<Rightarrow> tensor2d \<Rightarrow> string option) \<Rightarrow> tensor2d
     \<Rightarrow> (nat \<times> nat list) list \<Rightarrow> file_system
     \<Rightarrow> error option \<times> file_system \<times> event list" where
  "run_batches c extract tokens [] fs = (None, fs, [])"
| "run_batches c extract tokens ((feature_batch_count, features_to_process) # rest) fs =
     (if int feature_batch_count < start_batch c then run_batches c extract tokens rest fs
      else if (case end_batch c of None \<Rightarrow> False | Some m \<Rightarrow> m < int feature_batch_count)
      then run_batches c extract tokens rest fs
      else
        case fs (output_file c feature_batch_count) of
          Some existing \<Rightarrow> run_batches c extract tokens rest fs
        | None \<Rightarrow>
            (case extract features_to_process tokens of
               None \<Rightarrow> (Some ExtractionFailed, fs,
                         [Extract feature_batch_count features_to_process])
             | Some json_object \<Rightarrow>
                 let fs' = fs(output_file c feature_batch_count \<mapsto> ArtifactJson json_object);
                     evs = [Extract feature_batch_count features_to_process,
                            WriteFile (output_file c feature_batch_count)]
                           @ (if use_wandb c then [WandbLog feature_batch_count] else [])
                 in case run_batches c extract tokens rest fs' of
                      (err, fs'', evs') \<Rightarrow> (err, fs'', evs @ evs')))"

text \<open>
  The ordinals that neither bound of the batch loop skips: not below \<open>start_batch\<close> and,
  when \<open>end_batch\<close> is configured, not above it.
\<close>

definition in_bounds :: "runner_config \<Rightarrow> nat \<Rightarrow> bool" where
  "in_bounds c i =
     (start_batch c \<le> int i \<and> (case end_batch c of None \<Rightarrow> True | Some m \<Rightarrow> int i \<le> m))"

datatype outcome = Finished | Exited | Raised error

definition run ::
    "runner \<Rightarrow> (nat list \<Rightarrow> tensor2d \<Rightarrow> string option) \<Rightarrow> (nat \<Rightarrow> nat \<Rightarrow> nat list)
     \<Rightarrow> file_system \<Rightarrow> outcome \<times> file_system \<times> event list" where
  "run r extract randperm fs0 =
     (let fs1 = fs0(run_settings_path (cfg r) \<mapsto> RunSettingsJson);
          ev1 = [WriteFile (run_settings_path (cfg r))]
                @ (if use_wandb (cfg r) then [WandbInit] else []);
          n_features = sae_d_sae r;
          target_feature_indexes = get_alive_features n_features
      in case get_feature_batches target_feature_indexes (n_features_at_a_time (cfg r)) of
           Inl e \<Rightarrow> (Raised e, fs1, ev1)
         | Inr feature_idx \<Rightarrow>
             if int (length feature_idx) \<le> start_batch (cfg r) then (Exited, fs1, ev1)
             else
               case record_skipped_features r n_features target_feature_indexes fs1 of
                 (fs2, ev2) \<Rightarrow>
               (case get_tokens r randperm fs2 of
                  (Inl e, fs3, ev3) \<Rightarrow> (Raised e, fs3, ev1 @ ev2 @ ev3)
                | (Inr tokens, fs3, ev3) \<Rightarrow>
                    (case add_prefix_suffix_to_tokens r tokens of
                       Inl e \<Rightarrow> (Raised e, fs3, ev1 @ ev2 @ ev3)
                     | Inr tokens' \<Rightarrow>
                         (case run_batches (cfg r) extract tokens' (enumerate 0 feature_idx) fs3 of
                            (Some e, fs4, ev4) \<Rightarrow> (Raised e, fs4, ev1 @ ev2 @ ev3 @ ev4)
                          | (None, fs4, ev4) \<Rightarrow>
                              (Finished, fs4,
                               ev1 @ ev2 @ ev3 @ ev4
                               @ (if use_wandb (cfg r) then [WandbFinish] else []))))))"

section \<open>VocabularyNormalizer\<close>

text \<open>
  A Python string is a sequence of Unicode code points, modelled as a list of naturals
  (a HOL \<open>char\<close> is a byte).  \<^verbatim>\<open>str.replace(old, new)\<close> replaces the occurrences of
  \<open>old\<close> from left to right without overlap; for the empty \<open>old\<close> it puts \<open>new\<close> before
  every character and at the end.
\<close>

type_synonym ustring = "nat list"

function py_replace :: "'a list \<Rightarrow> 'a list \<Rightarrow> 'a list \<Rightarrow> 'a list" where
  "py_replace old new [] = (if old = [] then new else [])"
| "py_replace old new (c # cs) =
     (if old = [] then new @ c # py_replace old new cs
      else if take (length old) (c # cs) = old
      then new @ py_replace old new (drop (length old) (c # cs))
      else c # py_replace old new cs)"
  by pat_completeness auto
termination
  by (relation "measure (\<lambda>(old, new, s). length s)") auto

definition OUT_OF_RANGE_TOKEN :: ustring where
  "OUT_OF_RANGE_TOKEN = map of_char ''<|outofrange|>''"

text \<open>
  \<^verbatim>\<open>HTML_ANOMALIES\<close>, in the order of the dictionary literal and as Python reads lines
  52 to 63 of the source file: the value of the third key is written with three ASCII
  double quotes, which open a triple-quoted string that runs to the three quotes of the
  next line, so that the third key maps to the text between them and the key of the fourth
  line is no key of the table.
\<close>

definition HTML_ANOMALIES :: "(ustring \<times> ustring) list" where
  "HTML_ANOMALIES =
     [([226, 290, 310], [8212]),
      ([226, 290, 309], [8211]),
      ([226, 290, 318], [44, 10, 32, 32, 32, 32, 34, 226, 290, 319, 34, 58, 32]),
      ([226, 290, 314], [39]),
      ([226, 290, 315], [39]),
      ([226, 290, 301], [32]),
      ([288], [32]),
      ([266], [10]),
      ([265], [9])]"

text \<open>The inner loop of \<^verbatim>\<open>get_vocab_dict\<close>: every anomaly replaced in turn.\<close>

definition replace_anomalies :: "ustring \<Rightarrow> ustring" where
  "replace_anomalies k = fold (\<lambda>(anomaly, fixed) modified_key. py_replace anomaly fixed modified_key)
                              HTML_ANOMALIES k"

text \<open>
  \<^verbatim>\<open>get_vocab_dict\<close>.  The tokenizer's vocabulary is a dictionary from token string to
  id, given by its items in order; the result is a dictionary from id to string, kept as
  an association list in insertion order (\<open>AList.update\<close> overwrites in place or appends,
  as a Python assignment to a key does).
\<close>

definition get_vocab_dict :: "(ustring \<times> int) list \<Rightarrow> int \<Rightarrow> (int \<times> ustring) list" where
  "get_vocab_dict vocab d_vocab =
     (let new_vocab_dict = fold (\<lambda>(k, v) d. AList.update v (replace_anomalies k) d) vocab []
      in fold (\<lambda>i d. AList.update i OUT_OF_RANGE_TOKEN d)
              (map int [length new_vocab_dict..<nat d_vocab]) new_vocab_dict)"

text \<open>A permutation generator that never reorders, and an extractor that always succeeds.\<close>

definition identity_randperm :: "nat \<Rightarrow> nat \<Rightarrow> nat list" where
  "identity_randperm c n = [0..<n]"

definition reversing_randperm :: "nat \<Rightarrow> nat \<Rightarrow> nat list" where
  "reversing_randperm c n = rev [0..<n]"

definition constant_extract :: "nat list \<Rightarrow> tensor2d \<Rightarrow> string option" where
  "constant_extract features tokens = Some ''{}''"

section \<open>Construction of the runner\<close>

text \<open>
  \<^verbatim>\<open>str(Path(a).joinpath(b))\<close> on a POSIX system, as \<^verbatim>\<open>pathlib\<close> computes it: a path
  is its root (\<^verbatim>\<open>/\<close>, or \<^verbatim>\<open>//\<close> for exactly two leading slashes) and its components,
  where empty components and \<^verbatim>\<open>.\<close> are dropped; joining an absolute path discards the
  left-hand side; the path without root and components prints as \<^verbatim>\<open>.\<close>.
\<close>

fun split_on :: "char \<Rightarrow> string \<Rightarrow> string list" where
  "split_on sep [] = [[]]"
| "split_on sep (c # cs) =
     (if c = sep then [] # split_on sep cs
      else case split_on sep cs of
             p # ps \<Rightarrow> (c # p) # ps
           | [] \<Rightarrow> [[c]])"

definition path_root :: "string \<Rightarrow> string" where
  "path_root p =
     (if take 2 p = ''//'' \<and> take 3 p \<noteq> ''///'' then ''//''
      else if take 1 p = ''/'' then ''/''
      else [])"

definition path_parts :: "string \<Rightarrow> string list" where
  "path_parts p = filter (\<lambda>x. x \<noteq> [] \<and> x \<noteq> ''.'') (split_on CHR ''/'' p)"

fun join_parts :: "string list \<Rightarrow> string" where
  "join_parts [] = []"
| "join_parts [x] = x"
| "join_parts (x # y # ys) = x @ ''/'' @ join_parts (y # ys)"

definition path_str :: "string \<Rightarrow> string list \<Rightarrow> string" where
  "path_str anchor parts =
     (if anchor = [] \<and> parts = [] then ''.'' else anchor @ join_parts parts)"

definition joinpath :: "string \<Rightarrow> string \<Rightarrow> string" where
  "joinpath a b =
     (if path_root b \<noteq> [] then path_str (path_root b) (path_parts b)
      else path_str (path_root a) (path_parts a @ path_parts b))"

text \<open>
  What the loading part of \<^verbatim>\<open>__init__\<close> (lines 87 to 686 and 697 to 748) hands to
  the rest of it when it does not raise: the fields of \<^verbatim>\<open>self.sae.cfg\<close> that are read
  later and the token source.  The loaders themselves (encoder, model, dataset) are
  external collaborators.
\<close>

record loaded_encoder =
  loaded_model_name :: "string option"
  loaded_hook_name :: string
  loaded_d_sae :: nat
  loaded_prepend_bos :: bool
  loaded_store :: activations_store

text \<open>
  Lines 688 to 693:
  \<^verbatim>\<open>getattr(model_cfg, "model_name", None) or getattr(self.cfg, "model_id", None)\<close>,
  and the error when the result is \<^verbatim>\<open>None\<close> or empty.
\<close>

definition determine_model_id :: "runner_config \<Rightarrow> loaded_encoder \<Rightarrow> error + string" where
  "determine_model_id c ld =
     (let chosen = (case loaded_model_name ld of
                      Some (x # xs) \<Rightarrow> Some (x # xs)
                    | _ \<Rightarrow> model_id c)
      in case chosen of
           Some (x # xs) \<Rightarrow> Inr (x # xs)
         | _ \<Rightarrow> Inl NoModelId)"

text \<open>
  \<^verbatim>\<open>create_output_directory\<close>.  Making the directories leaves the regular files as
  they are, so the file map is not changed; the error is the one the source raises
  when the path is a regular file.
\<close>

definition create_output_directory ::
    "runner_config \<Rightarrow> string \<Rightarrow> loaded_encoder \<Rightarrow> file_system \<Rightarrow> error + string" where
  "create_output_directory c self_model_id ld fs =
     (let outputs_subdir = self_model_id @ ''_'' @ sae_set c @ ''_'' @ loaded_hook_name ld
                           @ ''_'' @ str_nat (loaded_d_sae ld);
          outputs_subdir' = (case np_sae_id_suffix c of
                               None \<Rightarrow> outputs_subdir
                             | Some suffix \<Rightarrow> outputs_subdir @ ''_'' @ suffix);
          joined = joinpath (outputs_dir c) outputs_subdir'
      in if fs joined \<noteq> None then Inl OutputDirIsFile else Inr joined)"

text \<open>
  \<^verbatim>\<open>__init__\<close>: the flag validation, then (after the loading) the model id, which is
  stored in the configuration, and the output directory, which replaces
  \<^verbatim>\<open>cfg.outputs_dir\<close>.  The vocabulary table built last is \<open>get_vocab_dict\<close>; it
  cannot raise and is not read by the functions modelled here.
\<close>

definition NeuronpediaRunner_init ::
    "runner_config \<Rightarrow> loaded_encoder \<Rightarrow> file_system \<Rightarrow> error + runner" where
  "NeuronpediaRunner_init c ld fs =
     (case validate_flags c of
        Some e \<Rightarrow> Inl e
      | None \<Rightarrow>
          (case determine_model_id c ld of
             Inl e \<Rightarrow> Inl e
           | Inr self_model_id \<Rightarrow>
               let c1 = c\<lparr>model_id := Some self_model_id\<rparr> in
               case create_output_directory c1 self_model_id ld fs of
                 Inl e \<Rightarrow> Inl e
               | Inr dir \<Rightarrow>
                   Inr \<lparr>cfg = c1\<lparr>outputs_dir := dir\<rparr>,
                        sae_d_sae = loaded_d_sae ld,
                        sae_prepend_bos = loaded_prepend_bos ld,
                        activations_store = loaded_store ld\<rparr>))"

section \<open>Sample data\<close>

text \<open>
  A configuration and a runner for the concrete evaluations below.  The token source is
  the one of the spec's scenario: twelve sequences in draw batches of four, the fifth an
  exact copy of the first and the ninth of the second.
\<close>

definition base_cfg :: runner_config where
  "base_cfg =
     \<lparr>use_transcoder = False, use_skip_transcoder = False, use_clt = False,
      clt_layer_idx = None, prefix_tokens = None, suffix_tokens = None,
      shuffle_tokens = False, n_prompts_total = 8, n_features_at_a_time = 4,
      start_batch = 0, end_batch = None, outputs_dir = ''out'', use_wandb = False,
      sae_set = ''res-jb'', np_sae_id_suffix = None, model_id = None\<rparr>"

definition scenario_store :: activations_store where
  "scenario_store =
     \<lparr>store_batch_size_prompts = 4,
      stream = [[[1], [2], [3], [4]], [[1], [6], [7], [8]], [[2], [10], [11], [12]]]\<rparr>"

definition base_runner :: runner where
  "base_runner =
     \<lparr>cfg = base_cfg, sae_d_sae = 10, sae_prepend_bos = True,
      activations_store = scenario_store\<rparr>"

definition empty_dir :: file_system where
  "empty_dir = Map.empty"

text \<open>A raw vocabulary of two tokens, the first with the anomaly of code point 288.\<close>

definition sample_vocab :: "(ustring \<times> int) list" where
  "sample_vocab = [([288, 97], 0), ([98], 1)]"

text \<open>
  A plan of three batches (the plan for ten features, four at a time), a small corpus, the
  configuration of the spec's bounds scenario, and the two loop runs used as examples: one
  with both bounds set to \<open>1\<close>, and one with no bound, each in an empty directory.
\<close>

definition sample_plan :: "nat list list" where
  "sample_plan = [[0, 1, 2, 3], [4, 5, 6], [7, 8, 9]]"

definition sample_tokens :: tensor2d where
  "sample_tokens = \<lparr>n_cols = 1, rows = [[1], [2]]\<rparr>"

definition bounded_cfg :: runner_config where
  "bounded_cfg = base_cfg\<lparr>start_batch := 1, end_batch := Some 1\<rparr>"

definition bounded_run :: "error option \<times> file_system \<times> event list" where
  "bounded_run =
     run_batches bounded_cfg constant_extract sample_tokens (enumerate 0 sample_plan) empty_dir"

definition first_run :: "error option \<times> file_system \<times> event list" where
  "first_run =
     run_batches base_cfg constant_extract sample_tokens (enumerate 0 sample_plan) empty_dir"

text \<open>
  More configurations: two encoder flags at once; what the loaders hand over for a small
  encoder; a prefix as long as the sequences of the scenario source, with the runner
  that \<^verbatim>\<open>__init__\<close> builds from it; a start batch equal to the number of batches
  of the plan.
\<close>

definition conflicting_cfg :: runner_config where
  "conflicting_cfg = base_cfg\<lparr>use_transcoder := True, use_clt := True, clt_layer_idx := Some 0\<rparr>"

definition sample_loaded :: loaded_encoder where
  "sample_loaded =
     \<lparr>loaded_model_name = Some ''gpt2-small'', loaded_hook_name = ''blocks.0.hook_resid_pre'',
      loaded_d_sae = 10, loaded_prepend_bos = True, loaded_store = scenario_store\<rparr>"

definition long_prefix_cfg :: runner_config where
  "long_prefix_cfg = base_cfg\<lparr>prefix_tokens := Some [101]\<rparr>"

definition long_prefix_runner :: runner where
  "long_prefix_runner =
     \<lparr>cfg = long_prefix_cfg
              \<lparr>model_id := Some ''gpt2-small'',
               outputs_dir := ''out/gpt2-small_res-jb_blocks.0.hook_resid_pre_10''\<rparr>,
      sae_d_sae = 10, sae_prepend_bos = True, activations_store = scenario_store\<rparr>"

definition late_start_runner :: runner where
  "late_start_runner = base_runner\<lparr>cfg := base_cfg\<lparr>start_batch := 3\<rparr>\<rparr>"

text \<open>
  The corpus step of the run of \<open>long_prefix_runner\<close> in an empty directory: \<open>get_tokens\<close>
  on the files left by the run settings and the skipped-feature record.
\<close>

definition long_prefix_corpus_step :: "(error + tensor2d) \<times> file_system \<times> event list" where
  "long_prefix_corpus_step =
     get_tokens long_prefix_runner identity_randperm
       (fst (record_skipped_features long_prefix_runner (sae_d_sae long_prefix_runner)
               (get_alive_features (sae_d_sae long_prefix_runner))
               (empty_dir(run_settings_path (cfg long_prefix_runner) \<mapsto> RunSettingsJson))))"

section \<open>Properties of the planner\<close>

lemma slices_eq_chunks:
  "map (\<lambda>i. slice ((a # cumsum_acc a ss) ! i) ((a # cumsum_acc a ss) ! (i + 1)) xs)
       [0..<length ss]
   = chunks ss (drop a xs)"
proof (induction ss arbitrary: a)
  case Nil
  show ?case by simp
next
  case (Cons s ss)
  have split: "[0..<length (s # ss)] = 0 # map Suc [0..<length ss]"
    by (simp add: upt_conv_Cons map_Suc_upt del: upt_Suc)
  have hd: "slice a (a + s) xs = take s (drop a xs)"
    by (simp add: slice_def)
  have tl: "map (\<lambda>i. slice ((a # cumsum_acc a (s # ss)) ! Suc i)
                          ((a # cumsum_acc a (s # ss)) ! (Suc i + 1)) xs) [0..<length ss]
            = chunks ss (drop (a + s) xs)"
    using Cons.IH [of "a + s"] by simp
  show ?case
    unfolding split
    using hd tl by (simp add: o_def add.commute)
qed

lemma concat_chunks: "concat (chunks ss xs) = take (sum_list ss) xs"
proof (induction ss arbitrary: xs)
  case Nil
  show ?case by simp
next
  case (Cons s ss)
  show ?case by (simp add: Cons.IH take_add)
qed

lemma length_chunks [simp]: "length (chunks ss xs) = length ss"
  by (induction ss arbitrary: xs) simp_all

lemma map_length_chunks:
  "sum_list ss \<le> length xs \<Longrightarrow> map length (chunks ss xs) = ss"
  by (induction ss arbitrary: xs) simp_all

lemma array_split_chunks:
  assumes "0 < g"
  shows "array_split ary g =
           Inr (chunks (replicate (length ary mod nat g) (length ary div nat g + 1)
                        @ replicate (nat g - length ary mod nat g) (length ary div nat g)) ary)"
proof -
  let ?ss = "replicate (length ary mod nat g) (length ary div nat g + 1)
             @ replicate (nat g - length ary mod nat g) (length ary div nat g)"
  have pos: "0 < nat g" using assms by simp
  have len: "length ?ss = nat g"
    using mod_less_divisor [OF pos, of "length ary"] by simp
  have "map (\<lambda>i. slice ((0 # cumsum_acc 0 ?ss) ! i) ((0 # cumsum_acc 0 ?ss) ! (i + 1)) ary)
            [0..<length ?ss] = chunks ?ss (drop 0 ary)"
    by (rule slices_eq_chunks)
  then show ?thesis
    using assms unfolding len by (simp add: array_split_def cumsum_def Let_def)
qed

lemma sum_list_section_sizes:
  assumes "0 < (g::nat)"
  shows "sum_list (replicate (n mod g) (n div g + 1) @ replicate (g - n mod g) (n div g)) = n"
proof -
  have "n mod g < g" using assms by simp
  then have "(n mod g) * (n div g + 1) + (g - n mod g) * (n div g) = g * (n div g) + n mod g"
    by (simp add: algebra_simps diff_mult_distrib)
  then show ?thesis by (simp add: sum_list_replicate)
qed

lemma ceil_bounds:
  fixes n k :: int
  assumes "0 < k"
  shows "n \<le> (- ((- n) div k)) * k" and "(- ((- n) div k) - 1) * k < n"
proof -
  define p where "p = k * ((- n) div k)"
  have eq: "p + (- n) mod k = - n" unfolding p_def by (rule mult_div_mod_eq)
  have lo: "0 \<le> (- n) mod k" and hi: "(- n) mod k < k" using assms by simp_all
  have c: "(- ((- n) div k)) * k = - p" by (simp add: p_def)
  have c1: "(- ((- n) div k) - 1) * k = - p - k" by (simp add: p_def algebra_simps)
  show "n \<le> (- ((- n) div k)) * k" unfolding c using eq lo by linarith
  show "(- ((- n) div k) - 1) * k < n" unfolding c1 using eq hi by linarith
qed

lemma n_subarrays_bounds:
  fixes k :: int and n :: nat
  assumes "0 < n" "0 < k"
  defines "g \<equiv> nat (- ((- int n) div k))"
  shows "0 < g" and "g \<le> n" and "n \<le> g * nat k" and "(g - 1) * nat k < n"
    and "int g = - ((- int n) div k)"
proof -
  let ?c = "- ((- int n) div k)"
  have up: "int n \<le> ?c * k" and low: "(?c - 1) * k < int n"
    using ceil_bounds [OF assms(2), of "int n"] by simp_all
  have cpos: "0 < ?c"
  proof (rule ccontr)
    assume "\<not> 0 < ?c"
    then have "?c * k \<le> 0" using assms(2) by (simp add: mult_le_0_iff)
    then show False using up assms(1) by simp
  qed
  then show g0: "0 < g" and gi: "int g = ?c" by (simp_all add: g_def)
  have "(?c - 1) * 1 \<le> (?c - 1) * k" using cpos assms(2) by (intro mult_left_mono) simp_all
  then have "?c - 1 < int n" using low by simp
  then show "g \<le> n" using gi by linarith
  have "int n \<le> int (g * nat k)" using up gi assms(2) by simp
  then show "n \<le> g * nat k" by linarith
  have "int ((g - 1) * nat k) = (?c - 1) * k" using gi g0 assms(2) by (simp add: of_nat_diff)
  then have "int ((g - 1) * nat k) < int n" using low by simp
  then show "(g - 1) * nat k < n" by linarith
qed

lemma plan_eq:
  assumes "0 < d_sae" "0 < k"
  shows "feature_batch_plan d_sae k =
     Inr (chunks (replicate (d_sae mod nat (- ((- int d_sae) div k))) (d_sae div nat (- ((- int d_sae) div k)) + 1)
                        @ replicate (nat (- ((- int d_sae) div k)) - d_sae mod nat (- ((- int d_sae) div k))) (d_sae div nat (- ((- int d_sae) div k)))) [0..<d_sae])"
proof -
  have "0 < - ((- int d_sae) div k)"
    using n_subarrays_bounds(1,5) [OF assms] by linarith
  from array_split_chunks [OF this, of "[0..<d_sae]"] show ?thesis
    using assms by (simp add: feature_batch_plan_def get_feature_batches_def get_alive_features_def ceil_div_def) 
qed

text \<open>
  Claim C4.  Here and below \<open>batch_size\<close> stands for the configured
  \<^verbatim>\<open>n_features_at_a_time\<close>.  For \<open>n_features > 0\<close> and \<open>batch_size > 0\<close>,
  \<open>get_feature_batches\<close> (on the indices of \<open>get_alive_features\<close>) returns exactly
  \<open>\<lceil>n_features / batch_size\<rceil>\<close> groups whose concatenation in plan order is
  \<open>0, 1, \<dots>, n_features - 1\<close>: no index is duplicated and none is missing.
\<close>

theorem get_feature_batches_partition:
  assumes "0 < n_features" and "0 < batch_size"
  shows "\<exists>plan. feature_batch_plan n_features batch_size = Inr plan
           \<and> int (length plan) = \<lceil>real n_features / real_of_int batch_size\<rceil>
           \<and> concat plan = [0..<n_features]
           \<and> distinct (concat plan)
           \<and> set (concat plan) = {0..<n_features}"
proof -
  define g where "g = nat (- ((- int n_features) div batch_size))"
  define ss where "ss = replicate (n_features mod g) (n_features div g + 1)
                        @ replicate (g - n_features mod g) (n_features div g)"
  have g0: "0 < g" and gi: "int g = - ((- int n_features) div batch_size)"
    using n_subarrays_bounds(1,5) [OF assms] by (simp_all add: g_def)
  have plan: "feature_batch_plan n_features batch_size = Inr (chunks ss [0..<n_features])"
    using plan_eq [OF assms] by (simp add: ss_def g_def)
  have len: "length ss = g" using mod_less_divisor [OF g0, of n_features] by (simp add: ss_def)
  have sum: "sum_list ss = n_features"
    unfolding ss_def by (rule sum_list_section_sizes [OF g0])
  have ceil: "\<lceil>real n_features / real_of_int batch_size\<rceil> = int g"
    using ceiling_divide_eq_div [of "int n_features" batch_size] gi by simp
  have cat: "concat (chunks ss [0..<n_features]) = [0..<n_features]"
    by (simp add: concat_chunks sum)
  have dist: "distinct (concat (chunks ss [0..<n_features]))"
    unfolding cat by simp
  have st: "set (concat (chunks ss [0..<n_features])) = {0..<n_features}"
    unfolding cat by simp
  show ?thesis
    unfolding plan using len ceil cat dist st by (intro exI [of _ "chunks ss [0..<n_features]"]) simp
qed

text \<open>Witness for C4 at \<open>n_features = 10\<close>, \<open>batch_size = 4\<close>.\<close>

theorem get_feature_batches_partition_witness:
  "(0::nat) < 10 \<and> (0::int) < 4
   \<and> (\<exists>plan. feature_batch_plan 10 4 = Inr plan
          \<and> int (length plan) = \<lceil>real 10 / real_of_int 4\<rceil>
          \<and> concat plan = [0..<10]
          \<and> distinct (concat plan)
          \<and> set (concat plan) = {0..<10})"
proof -
  have a: "(0::nat) < 10" and b: "(0::int) < 4" by simp_all
  show ?thesis using a b get_feature_batches_partition [OF a b] by (intro conjI)
qed

text \<open>
  Claim C3, as amended.  For \<open>n_features > 0\<close> and \<open>batch_size > 0\<close> the plan
  exists, its group sizes are those of \<open>array_split\<close>: with \<open>g\<close> groups, the first
  \<open>n_features mod g\<close> groups hold \<open>n_features div g + 1\<close> indices and the remaining ones
  \<open>n_features div g\<close>; every group is non-empty and holds at most
  \<open>batch_size\<close> indices.  Groups are balanced, so a group before the last one
  can be shorter than \<open>batch_size\<close>.
\<close>

theorem get_feature_batches_balanced:
  assumes "0 < n_features" and "0 < batch_size"
  shows "\<exists>plan. feature_batch_plan n_features batch_size = Inr plan
           \<and> map length plan =
               replicate (n_features mod length plan) (n_features div length plan + 1)
               @ replicate (length plan - n_features mod length plan) (n_features div length plan)
           \<and> (\<forall>grp \<in> set plan. 0 < length grp \<and> int (length grp) \<le> batch_size)"
proof -
  define g where "g = nat (- ((- int n_features) div batch_size))"
  define ss where "ss = replicate (n_features mod g) (n_features div g + 1)
                        @ replicate (g - n_features mod g) (n_features div g)"
  have g0: "0 < g" and gn: "g \<le> n_features" and up: "n_features \<le> g * nat batch_size"
    using n_subarrays_bounds(1,2,3) [OF assms] by (simp_all add: g_def)
  have plan: "feature_batch_plan n_features batch_size = Inr (chunks ss [0..<n_features])"
    using plan_eq [OF assms] by (simp add: ss_def g_def)
  have len: "length ss = g" using mod_less_divisor [OF g0, of n_features] by (simp add: ss_def)
  have sum: "sum_list ss = n_features"
    unfolding ss_def by (rule sum_list_section_sizes [OF g0])
  have lens: "map length (chunks ss [0..<n_features]) = ss"
    by (rule map_length_chunks) (simp add: sum)
  have dpos: "0 < n_features div g" using g0 gn by (simp add: div_greater_zero_iff)
  have dle: "n_features div g \<le> nat batch_size"
  proof -
    have "n_features div g \<le> (g * nat batch_size) div g" using up by (rule div_le_mono)
    then show ?thesis using g0 by simp
  qed
  have dlt: "n_features div g + 1 \<le> nat batch_size" if "0 < n_features mod g"
  proof (rule ccontr)
    assume "\<not> n_features div g + 1 \<le> nat batch_size"
    then have "n_features div g = nat batch_size" using dle by linarith
    then have "n_features = g * nat batch_size + n_features mod g"
      using div_mult_mod_eq [of n_features g] by (simp add: mult.commute)
    then show False using up that by linarith
  qed
  have bound: "0 < s \<and> int s \<le> batch_size" if "s \<in> set ss" for s
  proof -
    from that consider "s = n_features div g + 1" "0 < n_features mod g" | "s = n_features div g"
      by (auto simp: ss_def)
    then show ?thesis
    proof cases
      case 1
      then show ?thesis using dlt assms(2) by simp
    next
      case 2
      then show ?thesis using dpos dle assms(2) by simp
    qed
  qed
  have "\<forall>grp \<in> set (chunks ss [0..<n_features]). 0 < length grp \<and> int (length grp) \<le> batch_size"
  proof
    fix grp assume "grp \<in> set (chunks ss [0..<n_features])"
    then have "length grp \<in> set (map length (chunks ss [0..<n_features]))" by simp
    then have "length grp \<in> set ss" unfolding lens .
    then show "0 < length grp \<and> int (length grp) \<le> batch_size" by (rule bound)
  qed
  moreover have "map length (chunks ss [0..<n_features]) =
       replicate (n_features mod length (chunks ss [0..<n_features])) (n_features div length (chunks ss [0..<n_features]) + 1)
               @ replicate (length (chunks ss [0..<n_features]) - n_features mod length (chunks ss [0..<n_features])) (n_features div length (chunks ss [0..<n_features]))"
    using lens len by (simp add: ss_def)
  ultimately show ?thesis unfolding plan by (intro exI [of _ "chunks ss [0..<n_features]"]) simp
qed



text \<open>Witness for the amended C3 at \<open>n_features = 10\<close>, \<open>batch_size = 4\<close>.\<close>

theorem get_feature_batches_balanced_witness:
  "(0::nat) < 10 \<and> (0::int) < 4
   \<and> (\<exists>plan. feature_batch_plan 10 4 = Inr plan
          \<and> map length plan =
              replicate (10 mod length plan) (10 div length plan + 1)
              @ replicate (length plan - 10 mod length plan) (10 div length plan)
          \<and> (\<forall>grp \<in> set plan. 0 < length grp \<and> int (length grp) \<le> 4))
   \<and> feature_batch_plan 10 4 = Inr [[0, 1, 2, 3], [4, 5, 6], [7, 8, 9]]"
proof -
  have a: "(0::nat) < 10" and b: "(0::int) < 4" by simp_all
  have e: "feature_batch_plan 10 4 = Inr [[0, 1, 2, 3], [4, 5, 6], [7, 8, 9]]" by code_simp
  show ?thesis using a b get_feature_batches_balanced [OF a b] e by (intro conjI)
qed

text \<open>
  Claim C3 as stated fails: for \<open>n_features = 10\<close> and \<open>batch_size = 4\<close> the
  plan is \<open>[[0,1,2,3],[4,5,6],[7,8,9]]\<close>, whose second group has three indices, and not
  \<open>[[0,1,2,3],[4,5,6,7],[8,9]]\<close>.
\<close>

theorem get_feature_batches_exact_size_counterexample:
  "feature_batch_plan 10 4 = Inr [[0, 1, 2, 3], [4, 5, 6], [7, 8, 9]]
   \<and> feature_batch_plan 10 4 \<noteq> Inr [[0, 1, 2, 3], [4, 5, 6, 7], [8, 9]]
   \<and> length [4, 5, 6 :: nat] \<noteq> 4"
  by code_simp

section \<open>Properties of the corpus builder\<close>

lemma keep_unique_inv:
  assumes "keep_unique b (seen, acc) = (seen', acc')" and "distinct acc" and "set acc = seen"
  shows "distinct acc' \<and> set acc' = seen' \<and> seen' = seen \<union> set b"
  using assms
proof (induction b arbitrary: seen acc)
  case Nil
  then show ?case by simp
next
  case (Cons seq rest)
  show ?case
  proof (cases "seq \<in> seen")
    case True
    with Cons.prems have "keep_unique rest (seen, acc) = (seen', acc')"
      by (simp add: hash_tensor_def)
    from Cons.IH [OF this Cons.prems(2,3)] True show ?thesis by auto
  next
    case False
    with Cons.prems have step: "keep_unique rest (insert seq seen, acc @ [seq]) = (seen', acc')"
      by (simp add: hash_tensor_def)
    have d: "distinct (acc @ [seq])" using False Cons.prems(2,3) by simp
    have s: "set (acc @ [seq]) = insert seq seen" using Cons.prems(3) by simp
    from Cons.IH [OF step d s] show ?thesis by auto
  qed
qed

lemma index_rows_perm:
  assumes "distinct p" and "set p = {0..<length xs}"
  shows "set (index_rows xs p) = set xs"
    and "distinct xs \<Longrightarrow> distinct (index_rows xs p)"
    and "length (index_rows xs p) = length xs"
proof -
  have "set (index_rows xs p) = (\<lambda>i. xs ! i) ` {0..<length xs}"
    using assms(2) by (simp add: index_rows_def)
  also have "\<dots> = set xs" using nth_image [of "length xs" xs] by simp
  finally show "set (index_rows xs p) = set xs" .
  show "distinct (index_rows xs p)" if "distinct xs"
  proof -
    have "inj_on (\<lambda>i. xs ! i) (set p)"
      using that assms(2) by (simp add: inj_on_nth)
    then show ?thesis using assms(1) by (simp add: index_rows_def distinct_map)
  qed
  have "length p = card (set p)" using assms(1) by (simp add: distinct_card)
  then show "length (index_rows xs p) = length xs" using assms(2) by (simp add: index_rows_def)
qed

lemma pull_batches_inv:
  assumes "pull_batches randperm shuffle n iters (st, c) (seen, acc) = Inr (acc', st', c')"
    and "distinct acc" and "set acc = seen"
    and "shuffle \<longrightarrow> (\<forall>c k. distinct (randperm c k) \<and> set (randperm c k) = {0..<k})"
  shows "\<exists>k. k \<le> iters \<and> k \<le> length (stream st) \<and> stream st' = drop k (stream st)
           \<and> distinct acc' \<and> set acc' = set acc \<union> \<Union> (set ` set (take k (stream st)))
           \<and> (int (length acc') < n \<longrightarrow> k = iters)"
  using assms(1,2,3)
proof (induction iters arbitrary: st c seen acc)
  case 0
  then show ?case by (intro exI [of _ 0]) simp
next
  case (Suc iters)
  from Suc.prems(1) obtain b bs where st: "stream st = b # bs"
    by (cases "stream st") (simp_all add: get_batch_tokens_def)
  define shuffled where "shuffled = (if shuffle then index_rows b (randperm c (length b)) else b)"
  define c1 where "c1 = (if shuffle then c + 1 else c)"
  define st1 where "st1 = st\<lparr>stream := bs\<rparr>"
  obtain seen1 acc1 where kept: "keep_unique shuffled (seen, acc) = (seen1, acc1)"
    by (cases "keep_unique shuffled (seen, acc)")
  have sset: "set shuffled = set b"
    using assms(4) index_rows_perm(1) [of "randperm c (length b)" b] by (simp add: shuffled_def)
  from keep_unique_inv [OF kept Suc.prems(2,3)]
  have inv1: "distinct acc1" "set acc1 = seen1" "set acc1 = set acc \<union> set b"
    using sset Suc.prems(3) by auto
  have unfold: "pull_batches randperm shuffle n (Suc iters) (st, c) (seen, acc) =
      (if n \<le> int (length acc1) then Inr (acc1, st1, c1)
       else pull_batches randperm shuffle n iters (st1, c1) (seen1, acc1))"
    using st kept by (simp add: get_batch_tokens_def shuffled_def c1_def st1_def Let_def)
  show ?case
  proof (cases "n \<le> int (length acc1)")
    case True
    with unfold Suc.prems(1) have "acc' = acc1" "st' = st1" by simp_all
    then show ?thesis
      using inv1 st True by (intro exI [of _ 1]) (simp add: st1_def)
  next
    case False
    with unfold Suc.prems(1)
    have rec: "pull_batches randperm shuffle n iters (st1, c1) (seen1, acc1) = Inr (acc', st', c')"
      by simp
    from Suc.IH [OF rec inv1(1,2)] obtain k where k: "k \<le> iters" "k \<le> length (stream st1)"
      "stream st' = drop k (stream st1)" "distinct acc'"
      "set acc' = set acc1 \<union> \<Union> (set ` set (take k (stream st1)))"
      "int (length acc') < n \<longrightarrow> k = iters" by blast
    show ?thesis
      using k inv1(3) st by (intro exI [of _ "Suc k"]) (auto simp: st1_def)
  qed
qed


lemma generate_tokens_Inr:
  assumes gen: "generate_tokens r randperm st n = Inr (t, st', c)"
    and perm: "shuffle_tokens (cfg r) \<longrightarrow>
                 (\<forall>c k. distinct (randperm c k) \<and> set (randperm c k) = {0..<k})"
  shows "\<exists>acc k.
    k \<le> nat (n div store_batch_size_prompts st) \<and> k \<le> length (stream st)
    \<and> stream st' = drop k (stream st) \<and> distinct acc
    \<and> set acc = \<Union> (set ` set (take k (stream st)))
    \<and> (int (length acc) < n \<longrightarrow> k = nat (n div store_batch_size_prompts st))
    \<and> distinct (rows t) \<and> set (rows t) = set (py_slice_to n acc)
    \<and> length (rows t) = length (py_slice_to n acc)"
proof -
  let ?iters = "nat (n div store_batch_size_prompts st)"
  let ?pull = "pull_batches randperm (shuffle_tokens (cfg r)) n ?iters (st, 0) ({}, [])"
  from gen have nz: "store_batch_size_prompts st \<noteq> 0"
    by (cases "store_batch_size_prompts st = 0") (simp_all add: generate_tokens_def)
  have gen1: "(case ?pull of
          Inl e \<Rightarrow> Inl e
        | Inr (all_tokens_list, st', c) \<Rightarrow>
            (case torch_cat_rows all_tokens_list of
               Inl e \<Rightarrow> Inl e
             | Inr joined \<Rightarrow>
                 let all_tokens = joined\<lparr>rows := py_slice_to n (rows joined)\<rparr>
                 in if shuffle_tokens (cfg r)
                    then Inr (all_tokens\<lparr>rows := index_rows (rows all_tokens)
                                                   (randperm c (length (rows all_tokens)))\<rparr>,
                              st', c + 1)
                    else Inr (all_tokens, st', c))) = Inr (t, st', c)"
    using gen nz by (simp add: generate_tokens_def)
  then obtain acc st1 c0 where pull1: "?pull = Inr (acc, st1, c0)"
    by (cases ?pull) auto
  from gen1 pull1 obtain joined where cat: "torch_cat_rows acc = Inr joined"
    by (cases "torch_cat_rows acc") auto
  have rj: "rows joined = acc"
    using cat by (cases acc) (auto simp: torch_cat_rows_def split: if_splits)
  from gen1 pull1 cat have st1: "st1 = st'"
    by (cases "shuffle_tokens (cfg r)") (simp_all add: Let_def)
  from gen1 pull1 cat rj
  have rt: "rows t = (if shuffle_tokens (cfg r)
                      then index_rows (py_slice_to n acc)
                             (randperm c0 (length (py_slice_to n acc)))
                      else py_slice_to n acc)"
    by (cases "shuffle_tokens (cfg r)") (auto simp: Let_def)
  have pull: "?pull = Inr (acc, st', c0)" using pull1 st1 by simp
  have d0: "distinct ([]::int list list)" and s0: "set ([]::int list list) = {}" by simp_all
  from pull_batches_inv [OF pull d0 s0 perm] obtain k where k:
    "k \<le> ?iters" "k \<le> length (stream st)"
    "stream st' = drop k (stream st)" "distinct acc"
    "set acc = \<Union> (set ` set (take k (stream st)))"
    "int (length acc) < n \<longrightarrow> k = ?iters"
    by auto
  have dsl: "distinct (py_slice_to n acc)"
    using k(4) by (simp add: py_slice_to_def)
  have fin: "distinct (rows t) \<and> set (rows t) = set (py_slice_to n acc)
        \<and> length (rows t) = length (py_slice_to n acc)"
  proof (cases "shuffle_tokens (cfg r)")
    case True
    with perm have p: "distinct (randperm c0 (length (py_slice_to n acc)))"
      "set (randperm c0 (length (py_slice_to n acc))) = {0..<length (py_slice_to n acc)}"
      by simp_all
    from index_rows_perm [OF p] dsl True rt show ?thesis by simp
  next
    case False
    with rt dsl show ?thesis by simp
  qed
  show ?thesis
    using k fin by (intro exI [of _ acc] exI [of _ k] conjI) simp_all
qed

lemma py_slice_to_subset: "set (py_slice_to n acc) \<subseteq> set acc"
  by (cases "0 \<le> n") (auto simp: py_slice_to_def dest: in_set_takeD)

lemma Union_take_subset: "\<Union> (set ` set (take k xs)) \<subseteq> \<Union> (set ` set xs)"
  using set_take_subset [of k xs] by blast

text \<open>
  Claim C7.  Whatever the source delivers, and whether or not the batches and the result
  are shuffled (\<open>randperm\<close> yields permutations), the corpus returned by
  \<open>generate_tokens\<close> contains no two identical sequences, and every sequence in it
  was drawn from the source.  (The inner loop keeps a sequence only if its content is not
  in the set of contents seen so far: \<open>keep_unique_inv\<close>.)
\<close>

theorem generate_tokens_no_duplicates:
  assumes "generate_tokens r randperm st n = Inr (t, st', c)"
    and "shuffle_tokens (cfg r) \<longrightarrow>
           (\<forall>c k. distinct (randperm c k) \<and> set (randperm c k) = {0..<k})"
  shows "distinct (rows t) \<and> set (rows t) \<subseteq> \<Union> (set ` set (stream st))"
proof -
  from generate_tokens_Inr [OF assms] obtain acc k where
    "k \<le> nat (n div store_batch_size_prompts st) \<and> k \<le> length (stream st)
    \<and> stream st' = drop k (stream st) \<and> distinct acc
    \<and> set acc = \<Union> (set ` set (take k (stream st)))
    \<and> (int (length acc) < n \<longrightarrow> k = nat (n div store_batch_size_prompts st))
    \<and> distinct (rows t) \<and> set (rows t) = set (py_slice_to n acc)
    \<and> length (rows t) = length (py_slice_to n acc)" by (elim exE)
  then have f: "set acc = \<Union> (set ` set (take k (stream st)))"
    "distinct (rows t)" "set (rows t) = set (py_slice_to n acc)" by simp_all
  have "set (rows t) \<subseteq> set acc" unfolding f(3) by (rule py_slice_to_subset)
  also have "\<dots> \<subseteq> \<Union> (set ` set (stream st))" unfolding f(1) by (rule Union_take_subset)
  finally have "set (rows t) \<subseteq> \<Union> (set ` set (stream st))" .
  then show ?thesis using f(2) by simp
qed

text \<open>
  Witness for C7: the scenario source with shuffling on, every permutation drawn being the
  reversal.
\<close>

theorem generate_tokens_no_duplicates_witness:
  "generate_tokens (base_runner\<lparr>cfg := base_cfg\<lparr>shuffle_tokens := True\<rparr>\<rparr>)
       reversing_randperm scenario_store 8
     = Inr (\<lparr>n_cols = 1, rows = [[6], [7], [8], [1], [2], [3], [4]]\<rparr>,
            \<lparr>store_batch_size_prompts = 4, stream = [[[2], [10], [11], [12]]]\<rparr>, 3)
   \<and> (distinct (rows \<lparr>n_cols = 1, rows = [[6], [7], [8], [1], [2], [3], [4]]\<rparr>)
      \<and> set (rows \<lparr>n_cols = 1, rows = [[6], [7], [8], [1], [2], [3], [4]]\<rparr>)
          \<subseteq> \<Union> (set ` set (stream scenario_store)))"
proof -
  have g: "generate_tokens (base_runner\<lparr>cfg := base_cfg\<lparr>shuffle_tokens := True\<rparr>\<rparr>)
       reversing_randperm scenario_store 8
     = Inr (\<lparr>n_cols = 1, rows = [[6], [7], [8], [1], [2], [3], [4]]\<rparr>,
            \<lparr>store_batch_size_prompts = 4, stream = [[[2], [10], [11], [12]]]\<rparr>, 3)"
    by code_simp
  have p: "shuffle_tokens (cfg (base_runner\<lparr>cfg := base_cfg\<lparr>shuffle_tokens := True\<rparr>\<rparr>)) \<longrightarrow>
           (\<forall>c k. distinct (reversing_randperm c k) \<and> set (reversing_randperm c k) = {0..<k})"
    by (simp add: reversing_randperm_def)
  show ?thesis using g generate_tokens_no_duplicates [OF g p] by (rule conjI)
qed

text \<open>
  Claim C1, as amended.  When \<open>generate_tokens\<close> returns for a target \<open>n \<ge> 0\<close>, it has
  pulled \<open>k\<close> batches, at most \<open>n div store_batch_size_prompts\<close> of them, and the corpus
  holds \<open>min n u\<close> sequences, where \<open>u\<close> is the number of different sequences in the
  pulled batches.  A corpus shorter than \<open>n\<close> is returned, without an error, exactly
  when the loop has used up its \<open>n div store_batch_size_prompts\<close> draws.
\<close>

theorem generate_tokens_bounded_draws:
  assumes "generate_tokens r randperm st n = Inr (t, st', c)"
    and "shuffle_tokens (cfg r) \<longrightarrow>
           (\<forall>c k. distinct (randperm c k) \<and> set (randperm c k) = {0..<k})"
    and "0 \<le> n"
  shows "\<exists>k. k \<le> nat (n div store_batch_size_prompts st) \<and> k \<le> length (stream st)
           \<and> stream st' = drop k (stream st)
           \<and> length (rows t) = min (nat n) (card (\<Union> (set ` set (take k (stream st)))))
           \<and> (length (rows t) < nat n \<longrightarrow> k = nat (n div store_batch_size_prompts st))"
proof -
  from generate_tokens_Inr [OF assms(1,2)] obtain acc k where
    "k \<le> nat (n div store_batch_size_prompts st) \<and> k \<le> length (stream st)
    \<and> stream st' = drop k (stream st) \<and> distinct acc
    \<and> set acc = \<Union> (set ` set (take k (stream st)))
    \<and> (int (length acc) < n \<longrightarrow> k = nat (n div store_batch_size_prompts st))
    \<and> distinct (rows t) \<and> set (rows t) = set (py_slice_to n acc)
    \<and> length (rows t) = length (py_slice_to n acc)" by (elim exE)
  then have f:
    "k \<le> nat (n div store_batch_size_prompts st)" "k \<le> length (stream st)"
    "stream st' = drop k (stream st)" "distinct acc"
    "set acc = \<Union> (set ` set (take k (stream st)))"
    "int (length acc) < n \<longrightarrow> k = nat (n div store_batch_size_prompts st)"
    "length (rows t) = length (py_slice_to n acc)" by simp_all
  have len: "length (rows t) = min (nat n) (length acc)"
    using f(7) assms(3) by (simp add: py_slice_to_def min.commute)
  have card: "length acc = card (\<Union> (set ` set (take k (stream st))))"
    using f(4) distinct_card [of acc] unfolding f(5) [symmetric] by simp
  have short: "k = nat (n div store_batch_size_prompts st)" if "length (rows t) < nat n"
  proof -
    from that len have "length acc < nat n" by simp
    then have "int (length acc) < n" using assms(3) by linarith
    with f(6) show ?thesis by simp
  qed
  have len': "length (rows t) = min (nat n) (card (\<Union> (set ` set (take k (stream st)))))"
    using len card by simp
  show ?thesis
    using f(1,2,3) len' short by (intro exI [of _ k] conjI impI)
qed

text \<open>Witness for the amended C1: the scenario source, target \<open>8\<close>, no shuffling.\<close>

theorem generate_tokens_bounded_draws_witness:
  "generate_tokens base_runner identity_randperm scenario_store 8
     = Inr (\<lparr>n_cols = 1, rows = [[1], [2], [3], [4], [6], [7], [8]]\<rparr>,
            \<lparr>store_batch_size_prompts = 4, stream = [[[2], [10], [11], [12]]]\<rparr>, 0)
   \<and> (\<exists>k. k \<le> nat (8 div store_batch_size_prompts scenario_store)
          \<and> k \<le> length (stream scenario_store)
          \<and> stream \<lparr>store_batch_size_prompts = 4, stream = [[[2], [10], [11], [12]]]\<rparr>
              = drop k (stream scenario_store)
          \<and> length (rows \<lparr>n_cols = 1, rows = [[1], [2], [3], [4], [6], [7], [8]]\<rparr>)
              = min (nat 8) (card (\<Union> (set ` set (take k (stream scenario_store)))))
          \<and> (length (rows \<lparr>n_cols = 1, rows = [[1], [2], [3], [4], [6], [7], [8]]\<rparr>) < nat 8
               \<longrightarrow> k = nat (8 div store_batch_size_prompts scenario_store)))"
proof -
  have g: "generate_tokens base_runner identity_randperm scenario_store 8
     = Inr (\<lparr>n_cols = 1, rows = [[1], [2], [3], [4], [6], [7], [8]]\<rparr>,
            \<lparr>store_batch_size_prompts = 4, stream = [[[2], [10], [11], [12]]]\<rparr>, 0)"
    by code_simp
  have p: "shuffle_tokens (cfg base_runner) \<longrightarrow>
           (\<forall>c k. distinct (identity_randperm c k) \<and> set (identity_randperm c k) = {0..<k})"
    by (simp add: identity_randperm_def)
  have n: "(0::int) \<le> 8" by simp
  show ?thesis using g generate_tokens_bounded_draws [OF g p n] by (rule conjI)
qed

text \<open>
  Claim C1 as stated fails on the spec's own scenario (target \<open>8\<close>, draw batches of four,
  the fifth and ninth sequence duplicates): the loop stops after \<open>8 div 4 = 2\<close> draws,
  \<open>generate_tokens\<close> returns seven sequences although a third batch is waiting in the
  source, and \<open>get_tokens\<close> hands the seven sequences on without an error.
\<close>

theorem generate_tokens_short_corpus_counterexample:
  "generate_tokens base_runner identity_randperm scenario_store (n_prompts_total base_cfg)
     = Inr (\<lparr>n_cols = 1, rows = [[1], [2], [3], [4], [6], [7], [8]]\<rparr>,
            \<lparr>store_batch_size_prompts = 4, stream = [[[2], [10], [11], [12]]]\<rparr>, 0)
   \<and> fst (get_tokens base_runner identity_randperm empty_dir)
     = Inr \<lparr>n_cols = 1, rows = [[1], [2], [3], [4], [6], [7], [8]]\<rparr>
   \<and> n_prompts_total base_cfg = 8
   \<and> length [[1], [2], [3], [4], [6], [7], [8::int]] = 7"
  by code_simp

section \<open>Properties of the augmenter\<close>

lemma n_cols_slice_cols:
  "0 \<le> k \<Longrightarrow> n_cols (slice_cols k t) = min (nat k) (n_cols t)"
  by (simp add: slice_cols_def py_slice_to_def min.commute)

lemma length_rows_slice_cols: "length (rows (slice_cols k t)) = length (rows t)"
  by (simp add: slice_cols_def)

lemma wf_slice_cols:
  "wf_tensor t \<Longrightarrow> wf_tensor (slice_cols k t)"
  by (auto simp: wf_tensor_def slice_cols_def py_slice_to_def list_all_iff)

lemma wf_cat_cols:
  assumes "wf_tensor a" and "wf_tensor b"
  shows "wf_tensor (cat_cols a b)"
proof -
  have "length (x @ y) = n_cols a + n_cols b" if "(x, y) \<in> set (zip (rows a) (rows b))" for x y
  proof -
    from that have "x \<in> set (rows a)" and "y \<in> set (rows b)"
      by (auto dest: set_zip_leftD set_zip_rightD)
    with assms show ?thesis by (simp add: wf_tensor_def list_all_iff)
  qed
  then show ?thesis by (auto simp: wf_tensor_def cat_cols_def list_all_iff)
qed

lemma length_rows_cat_cols:
  "length (rows (cat_cols a b)) = min (length (rows a)) (length (rows b))"
  by (simp add: cat_cols_def)

lemma n_cols_cat_cols: "n_cols (cat_cols a b) = n_cols a + n_cols b"
  by (simp add: cat_cols_def)

lemma wf_repeat: "wf_tensor \<lparr>n_cols = length p, rows = replicate m p\<rparr>"
  by (simp add: wf_tensor_def list_all_iff)

lemma wf_bos: "wf_tensor \<lparr>n_cols = 1, rows = map (\<lambda>b. [b]) bs\<rparr>"
  by (simp add: wf_tensor_def list_all_iff)

lemma add_prefix_suffix_suffix_only_with_bos:
  assumes "0 < n_cols tokens"
    and "sae_prepend_bos r"
    and "prefix_tokens (cfg r) = None \<or> prefix_tokens (cfg r) = Some []"
    and "suffix_tokens (cfg r) = Some s"
    and "length s < n_cols tokens"
  shows "add_prefix_suffix_to_tokens r tokens = Inl LengthAssertion"
proof -
  have nc: "n_cols (slice_cols (int (n_cols tokens) - int (length s) - 1) tokens)
            = n_cols tokens - length s - 1"
    using assms(5) by (subst n_cols_slice_cols) auto
  show ?thesis
  proof (cases s)
    case Nil
    with assms nc show ?thesis
      by (auto simp: add_prefix_suffix_to_tokens_def Let_def)
  next
    case (Cons x xs)
    with assms nc show ?thesis
      by (auto simp: add_prefix_suffix_to_tokens_def Let_def cat_cols_def)
  qed
qed

lemma add_prefix_suffix_length_preserved:
  assumes wf: "wf_tensor tokens" and pos: "0 < n_cols tokens"
    and pre: "(\<exists>p ps. prefix_tokens (cfg r) = Some (p # ps)) \<or> \<not> sae_prepend_bos r"
    and keep: "(case prefix_tokens (cfg r) of None \<Rightarrow> 0 | Some p \<Rightarrow> length p)
         + (case suffix_tokens (cfg r) of None \<Rightarrow> 0 | Some s \<Rightarrow> length s) < n_cols tokens"
  shows "\<exists>t. add_prefix_suffix_to_tokens r tokens = Inr t \<and> n_cols t = n_cols tokens
             \<and> wf_tensor t \<and> length (rows t) = length (rows tokens)"
proof -
  define P where "P = (case prefix_tokens (cfg r) of None \<Rightarrow> 0 | Some p \<Rightarrow> length p)"
  define S where "S = (case suffix_tokens (cfg r) of None \<Rightarrow> 0 | Some s \<Rightarrow> length s)"
  define b where "b = (if sae_prepend_bos r then 1 else 0::int)"
  define trimmed where "trimmed = slice_cols (int (n_cols tokens) - int P - int S - b) tokens"
  define with_prefix where "with_prefix =
     (case prefix_tokens (cfg r) of
        Some (p # ps) \<Rightarrow>
          cat_cols (if sae_prepend_bos r
                    then cat_cols \<lparr>n_cols = 1, rows = map (\<lambda>b. [b]) (map hd (rows tokens))\<rparr>
                           \<lparr>n_cols = length (p # ps), rows = replicate (length (rows trimmed)) (p # ps)\<rparr>
                    else \<lparr>n_cols = length (p # ps), rows = replicate (length (rows trimmed)) (p # ps)\<rparr>)
                   trimmed
      | _ \<Rightarrow> trimmed)"
  define with_suffix where "with_suffix =
     (case suffix_tokens (cfg r) of
        Some (s # ss) \<Rightarrow>
          cat_cols with_prefix
            \<lparr>n_cols = length (s # ss), rows = replicate (length (rows with_prefix)) (s # ss)\<rparr>
      | _ \<Rightarrow> with_prefix)"
  have lt: "P + S < n_cols tokens" using keep by (simp add: P_def S_def)
  have b01: "0 \<le> b" "b \<le> 1" by (simp_all add: b_def)
  have t_cols: "int (n_cols trimmed) = int (n_cols tokens) - int P - int S - b"
    unfolding trimmed_def using lt b01 by (subst n_cols_slice_cols) auto
  have t_wf: "wf_tensor trimmed" unfolding trimmed_def by (rule wf_slice_cols [OF wf])
  have t_rows: "length (rows trimmed) = length (rows tokens)"
    by (simp add: trimmed_def length_rows_slice_cols)
  have p_facts: "wf_tensor with_prefix \<and> length (rows with_prefix) = length (rows tokens)
                 \<and> int (n_cols with_prefix) = int (n_cols tokens) - int S"
  proof (cases "prefix_tokens (cfg r)")
    case None
    with pre have "b = 0" by (simp add: b_def)
    with None t_wf t_rows t_cols show ?thesis by (simp add: with_prefix_def P_def)
  next
    case (Some pl)
    show ?thesis
    proof (cases pl)
      case Nil
      with Some pre have "b = 0" by (simp add: b_def)
      with Nil Some t_wf t_rows t_cols show ?thesis by (simp add: with_prefix_def P_def)
    next
      case (Cons p ps)
      show ?thesis
      proof (cases "sae_prepend_bos r")
        case True
        have "wf_tensor (cat_cols (cat_cols \<lparr>n_cols = 1, rows = map (\<lambda>b. [b]) (map hd (rows tokens))\<rparr>
                 \<lparr>n_cols = length (p # ps), rows = replicate (length (rows trimmed)) (p # ps)\<rparr>) trimmed)"
          by (intro wf_cat_cols wf_bos wf_repeat t_wf)
        with True Some Cons t_rows t_cols show ?thesis
          by (simp add: with_prefix_def P_def b_def length_rows_cat_cols n_cols_cat_cols)
      next
        case False
        have "wf_tensor (cat_cols
                 \<lparr>n_cols = length (p # ps), rows = replicate (length (rows trimmed)) (p # ps)\<rparr> trimmed)"
          by (intro wf_cat_cols wf_repeat t_wf)
        with False Some Cons t_rows t_cols show ?thesis
          by (simp add: with_prefix_def P_def b_def length_rows_cat_cols n_cols_cat_cols)
      qed
    qed
  qed
  have s_facts: "wf_tensor with_suffix \<and> length (rows with_suffix) = length (rows tokens)
                 \<and> n_cols with_suffix = n_cols tokens"
  proof (cases "suffix_tokens (cfg r)")
    case None
    with p_facts show ?thesis by (simp add: with_suffix_def S_def)
  next
    case (Some sl)
    show ?thesis
    proof (cases sl)
      case Nil
      with Some p_facts show ?thesis by (simp add: with_suffix_def S_def)
    next
      case (Cons s ss)
      have "wf_tensor (cat_cols with_prefix
            \<lparr>n_cols = length (s # ss), rows = replicate (length (rows with_prefix)) (s # ss)\<rparr>)"
        using p_facts by (intro wf_cat_cols wf_repeat) simp
      with Some Cons p_facts show ?thesis
        by (simp add: with_suffix_def S_def length_rows_cat_cols n_cols_cat_cols)
    qed
  qed
  show ?thesis
  proof (cases "prefix_tokens (cfg r) = None \<and> suffix_tokens (cfg r) = None")
    case True
    with pos wf show ?thesis by (simp add: add_prefix_suffix_to_tokens_def)
  next
    case False
    have "add_prefix_suffix_to_tokens r tokens = Inr with_suffix"
      using False pos lt s_facts
      unfolding add_prefix_suffix_to_tokens_def Let_def
        with_suffix_def with_prefix_def trimmed_def P_def S_def b_def
      by (simp split: option.splits list.splits)
    with s_facts show ?thesis by simp
  qed
qed

text \<open>
  Claim C2.  The claim is that the closing assertion holds whenever \<open>keep_length > 0\<close>,
  suffix-only configurations with a leading marker token included.  The code fails it:
  with a suffix, no prefix and \<open>prepend_bos\<close> set, the sequences are trimmed by one more
  position for the marker, but the marker is re-inserted only in the prefix branch, so
  the result is one position short and the assertion raises.  Here: one sequence of
  length four, suffix \<open>[9]\<close>.
\<close>

theorem add_prefix_suffix_suffix_only_assertion_fails:
  "add_prefix_suffix_to_tokens
     (base_runner\<lparr>cfg := base_cfg\<lparr>suffix_tokens := Some [9]\<rparr>\<rparr>)
     \<lparr>n_cols = 4, rows = [[1, 2, 3, 4]]\<rparr> = Inl LengthAssertion
   \<and> sae_prepend_bos (base_runner\<lparr>cfg := base_cfg\<lparr>suffix_tokens := Some [9]\<rparr>\<rparr>)
   \<and> prefix_tokens (cfg (base_runner\<lparr>cfg := base_cfg\<lparr>suffix_tokens := Some [9]\<rparr>\<rparr>)) = None"
  by code_simp

section \<open>Properties of the vocabulary table\<close>

lemma fold_update_keys:
  "fst ` set (fold (\<lambda>(k, v) d. AList.update v (f k) d) vocab d0) = fst ` set d0 \<union> snd ` set vocab"
proof (induction vocab arbitrary: d0)
  case Nil
  show ?case by simp
next
  case (Cons kv vocab)
  obtain k v where kv: "kv = (k, v)" by (cases kv)
  have "fst ` set (fold (\<lambda>(k, v) d. AList.update v (f k) d) (kv # vocab) d0)
        = fst ` set (AList.update v (f k) d0) \<union> snd ` set vocab"
    using Cons.IH [of "AList.update v (f k) d0"] by (simp add: kv)
  also have "\<dots> = ({v} \<union> fst ` set d0) \<union> snd ` set vocab"
    by (simp only: dom_update)
  also have "\<dots> = fst ` set d0 \<union> snd ` set (kv # vocab)"
    by (simp add: kv)
  finally show ?case .
qed

lemma fold_update_distinct:
  "distinct (map fst d0) \<Longrightarrow>
   distinct (map fst (fold (\<lambda>(k, v) d. AList.update v (f k) d) vocab d0))"
  by (induction vocab arbitrary: d0) (auto simp: distinct_update)

lemma fold_update_other:
  "i \<notin> snd ` set vocab \<Longrightarrow>
   map_of (fold (\<lambda>(k, v) d. AList.update v (f k) d) vocab d0) i = map_of d0 i"
  by (induction vocab arbitrary: d0) (auto simp: update_conv')

lemma fold_update_lookup:
  "distinct (map snd vocab) \<Longrightarrow> (k, v) \<in> set vocab \<Longrightarrow>
   map_of (fold (\<lambda>(k, v) d. AList.update v (f k) d) vocab d0) v = Some (f k)"
proof (induction vocab arbitrary: d0)
  case Nil
  then show ?case by simp
next
  case (Cons kv vocab)
  obtain k' v' where kv: "kv = (k', v')" by (cases kv)
  show ?case
  proof (cases "(k, v) \<in> set vocab")
    case True
    with Cons show ?thesis by (simp add: kv)
  next
    case False
    with Cons.prems have eq: "k' = k" "v' = v" and notin: "v \<notin> snd ` set vocab"
      by (auto simp: kv)
    show ?thesis
      using fold_update_other [OF notin, of f "AList.update v (f k) d0"]
      by (simp add: kv eq update_conv')
  qed
qed

lemma pad_keys:
  "fst ` set (fold (\<lambda>i d. AList.update i s d) is d0) = fst ` set d0 \<union> set is"
proof (induction "is" arbitrary: d0)
  case Nil
  show ?case by simp
next
  case (Cons i "is")
  have "fst ` set (fold (\<lambda>i d. AList.update i s d) (i # is) d0)
        = fst ` set (AList.update i s d0) \<union> set is"
    using Cons.IH [of "AList.update i s d0"] by simp
  also have "\<dots> = ({i} \<union> fst ` set d0) \<union> set is"
    by (simp only: dom_update)
  also have "\<dots> = fst ` set d0 \<union> set (i # is)"
    by simp
  finally show ?case .
qed

lemma pad_distinct:
  "distinct (map fst d0) \<Longrightarrow> distinct (map fst (fold (\<lambda>i d. AList.update i s d) is d0))"
  by (induction "is" arbitrary: d0) (auto simp: distinct_update)

lemma pad_lookup:
  "map_of (fold (\<lambda>i d. AList.update i s d) is d0) j =
     (if j \<in> set is then Some s else map_of d0 j)"
  by (induction "is" arbitrary: d0) (auto simp: update_conv')


lemma length_eq_card_keys:
  "distinct (map fst al) \<Longrightarrow> length al = card (fst ` set al)"
  using distinct_card [of "map fst al"] by simp

text \<open>
  Claim C8, as amended.  When the ids of the raw vocabulary are exactly
  \<open>0, \<dots>, len - 1\<close> for its \<open>len\<close> entries and \<open>len \<le> d_vocab\<close>, the table has
  exactly \<open>d_vocab\<close> entries, one for every id in \<open>[0, d_vocab)\<close>; every raw entry's id
  maps to its string with the anomalies replaced, and every id from \<open>len\<close> on maps to the
  out-of-range sentinel.
\<close>

theorem get_vocab_dict_dense:
  assumes dense: "snd ` set vocab = {0..<int (length vocab)}"
    and le: "int (length vocab) \<le> d_vocab"
  shows "length (get_vocab_dict vocab d_vocab) = nat d_vocab
       \<and> distinct (map fst (get_vocab_dict vocab d_vocab))
       \<and> fst ` set (get_vocab_dict vocab d_vocab) = {0..<d_vocab}
       \<and> (\<forall>(k, v) \<in> set vocab.
            map_of (get_vocab_dict vocab d_vocab) v = Some (replace_anomalies k))
       \<and> (\<forall>i. int (length vocab) \<le> i \<and> i < d_vocab \<longrightarrow>
            map_of (get_vocab_dict vocab d_vocab) i = Some OUT_OF_RANGE_TOKEN)"
proof -
  define nvd where
    "nvd = fold (\<lambda>(k, v) d. AList.update v (replace_anomalies k) d) vocab []"
  define pad where "pad = map int [length nvd..<nat d_vocab]"
  have res: "get_vocab_dict vocab d_vocab = fold (\<lambda>i d. AList.update i OUT_OF_RANGE_TOKEN d) pad nvd"
    by (simp add: get_vocab_dict_def nvd_def pad_def Let_def)
  have keys_nvd: "fst ` set nvd = {0..<int (length vocab)}"
    using fold_update_keys [of replace_anomalies vocab "[]"] dense by (simp add: nvd_def)
  have dist_nvd: "distinct (map fst nvd)"
    unfolding nvd_def by (rule fold_update_distinct) simp
  have len_nvd: "length nvd = length vocab"
    using length_eq_card_keys [OF dist_nvd] keys_nvd by simp
  have ids: "distinct (map snd vocab)"
  proof (rule card_distinct)
    have "card (set (map snd vocab)) = card {0..<int (length vocab)}" using dense by simp
    then show "card (set (map snd vocab)) = length (map snd vocab)" by simp
  qed
  have pad_set: "set pad = {int (length vocab)..<d_vocab}"
  proof -
    have "set pad = int ` {length vocab..<nat d_vocab}" by (simp add: pad_def len_nvd)
    also have "\<dots> = {int (length vocab)..<d_vocab}"
      using le by (simp add: image_int_atLeastLessThan)
    finally show ?thesis .
  qed
  have keys: "fst ` set (get_vocab_dict vocab d_vocab) = {0..<d_vocab}"
    unfolding res pad_keys keys_nvd pad_set using le by auto
  have dist: "distinct (map fst (get_vocab_dict vocab d_vocab))"
    unfolding res by (rule pad_distinct [OF dist_nvd])
  have len: "length (get_vocab_dict vocab d_vocab) = nat d_vocab"
    using length_eq_card_keys [OF dist] keys by simp
  have raw: "map_of (get_vocab_dict vocab d_vocab) v = Some (replace_anomalies k)"
    if "(k, v) \<in> set vocab" for k v
  proof -
    from that have "v \<in> snd ` set vocab" by force
    then have "v < int (length vocab)" unfolding dense by simp
    then have "v \<notin> set pad" unfolding pad_set by simp
    then have "map_of (get_vocab_dict vocab d_vocab) v = map_of nvd v"
      unfolding res by (simp add: pad_lookup)
    also have "\<dots> = Some (replace_anomalies k)"
      unfolding nvd_def by (rule fold_update_lookup [OF ids that])
    finally show ?thesis .
  qed
  have padded: "map_of (get_vocab_dict vocab d_vocab) i = Some OUT_OF_RANGE_TOKEN"
    if "int (length vocab) \<le> i \<and> i < d_vocab" for i
  proof -
    from that have "i \<in> set pad" unfolding pad_set by simp
    then show ?thesis unfolding res by (simp add: pad_lookup)
  qed
  show ?thesis using len dist keys raw padded by blast
qed

text \<open>Witness for the amended C8: two tokens, one of them with an anomaly, padded to four.\<close>

theorem get_vocab_dict_dense_witness:
  "snd ` set sample_vocab = {0..<int (length sample_vocab)}
   \<and> int (length sample_vocab) \<le> 4
   \<and> length (get_vocab_dict sample_vocab 4) = nat 4
   \<and> distinct (map fst (get_vocab_dict sample_vocab 4))
   \<and> fst ` set (get_vocab_dict sample_vocab 4) = {0..<4}
   \<and> map_of (get_vocab_dict sample_vocab 4) 0 = Some (replace_anomalies [288, 97])
   \<and> map_of (get_vocab_dict sample_vocab 4) 3 = Some OUT_OF_RANGE_TOKEN
   \<and> get_vocab_dict sample_vocab 4
       = [(0, [32, 97]), (1, [98]), (2, OUT_OF_RANGE_TOKEN), (3, OUT_OF_RANGE_TOKEN)]"
proof -
  have d: "snd ` set sample_vocab = {0..<int (length sample_vocab)}"
    by (auto simp: sample_vocab_def)
  have l: "int (length sample_vocab) \<le> 4" by (simp add: sample_vocab_def)
  note t = get_vocab_dict_dense [OF d l]
  have 1: "length (get_vocab_dict sample_vocab 4) = nat 4"
    and 2: "distinct (map fst (get_vocab_dict sample_vocab 4))"
    and 3: "fst ` set (get_vocab_dict sample_vocab 4) = {0..<4}"
    using t by simp_all
  have m: "([288, 97], 0) \<in> set sample_vocab" by (simp add: sample_vocab_def)
  have 4: "map_of (get_vocab_dict sample_vocab 4) 0 = Some (replace_anomalies [288, 97])"
    using t m by blast
  have r: "int (length sample_vocab) \<le> 3 \<and> (3::int) < 4" by (simp add: sample_vocab_def)
  have 5: "map_of (get_vocab_dict sample_vocab 4) 3 = Some OUT_OF_RANGE_TOKEN"
    using t r by blast
  have 6: "get_vocab_dict sample_vocab 4
       = [(0, [32, 97]), (1, [98]), (2, OUT_OF_RANGE_TOKEN), (3, OUT_OF_RANGE_TOKEN)]"
    by code_simp
  show ?thesis using d l 1 2 3 4 5 6 by (intro conjI)
qed

text \<open>
  Claim C8 as stated fails.  With raw ids \<open>0\<close> and \<open>2\<close> and \<open>d_vocab = 4\<close> the padding
  starts at the number of raw entries: the table has three entries, id \<open>1\<close> has none, and
  the string of id \<open>2\<close> is overwritten by the sentinel.  With three raw entries and
  \<open>d_vocab = 2\<close> the table keeps all three.
\<close>

theorem get_vocab_dict_size_counterexample:
  "get_vocab_dict [([97], 0), ([98], 2)] 4
     = [(0, [97]), (2, OUT_OF_RANGE_TOKEN), (3, OUT_OF_RANGE_TOKEN)]
   \<and> get_vocab_dict [([97], 0), ([98], 1), ([99], 2)] 2
     = [(0, [97]), (1, [98]), (2, [99])]"
  by code_simp

section \<open>Properties of the batch loop\<close>

lemma str_nat_nonempty: "str_nat n \<noteq> []"
  by (subst str_nat.simps) simp

lemma digit_char_inj:
  assumes "char_of (48 + a :: nat) = char_of (48 + b :: nat)" and "a < 10" and "b < 10"
  shows "a = b"
proof -
  have "of_char (char_of (48 + a)) = (of_char (char_of (48 + b)) :: nat)"
    using assms(1) by simp
  then have "(48 + a) mod 256 = (48 + b) mod 256" by (simp only: of_char_of)
  then show ?thesis using assms(2,3) by simp
qed

lemma str_nat_inj: "str_nat n = str_nat m \<Longrightarrow> n = m"
proof (induction n arbitrary: m rule: less_induct)
  case (less n)
  show ?case
  proof (cases "n < 10")
    case n: True
    show ?thesis
    proof (cases "m < 10")
      case True
      have "str_nat n = [char_of (48 + n)]" using n by (subst str_nat.simps) simp
      moreover have "str_nat m = [char_of (48 + m)]" using True by (subst str_nat.simps) simp
      ultimately have "char_of (48 + n) = char_of (48 + m)" using less.prems by simp
      then show ?thesis using n True by (rule digit_char_inj)
    next
      case False
      have "str_nat m = str_nat (m div 10) @ [char_of (48 + m mod 10)]"
        using False by (subst str_nat.simps) simp
      moreover have "str_nat n = [char_of (48 + n)]" using n by (subst str_nat.simps) simp
      ultimately show ?thesis using less.prems str_nat_nonempty [of "m div 10"] by simp
    qed
  next
    case n: False
    have sn: "str_nat n = str_nat (n div 10) @ [char_of (48 + n mod 10)]"
      using n by (subst str_nat.simps) simp
    show ?thesis
    proof (cases "m < 10")
      case True
      then have "str_nat m = [char_of (48 + m)]" by (subst str_nat.simps) simp
      with sn show ?thesis using less.prems str_nat_nonempty [of "n div 10"] by simp
    next
      case False
      then have sm: "str_nat m = str_nat (m div 10) @ [char_of (48 + m mod 10)]"
        by (subst str_nat.simps) simp
      from less.prems sn sm have a: "str_nat (n div 10) = str_nat (m div 10)"
        and b: "char_of (48 + n mod 10) = char_of (48 + m mod 10)" by simp_all
      have "n div 10 < n" using n by simp
      from less.IH [OF this a] have d: "n div 10 = m div 10" .
      have e: "n mod 10 = m mod 10" by (rule digit_char_inj [OF b]) simp_all
      have "n = 10 * (n div 10) + n mod 10" by presburger
      also have "\<dots> = 10 * (m div 10) + m mod 10" unfolding d e ..
      also have "\<dots> = m" by presburger
      finally show ?thesis .
    qed
  qed
qed

lemma output_file_inj: "output_file c i = output_file c j \<Longrightarrow> i = j"
  by (simp add: output_file_def str_nat_inj)

lemma extract_calls_append: "extract_calls (a @ b) = extract_calls a @ extract_calls b"
  by (induction a rule: extract_calls.induct) simp_all

lemma writes_append: "writes (a @ b) = writes a @ writes b"
  by (induction a rule: writes.induct) simp_all


text \<open>One step of the loop, by cases.\<close>

lemma run_batches_skip:
  assumes "\<not> in_bounds c i \<or> fs (output_file c i) \<noteq> None"
  shows "run_batches c ex tok ((i, f) # rest) fs = run_batches c ex tok rest fs"
  using assms by (auto simp: in_bounds_def split: option.splits)

lemma run_batches_fail:
  assumes "in_bounds c i" and "fs (output_file c i) = None" and "ex f tok = None"
  shows "run_batches c ex tok ((i, f) # rest) fs = (Some ExtractionFailed, fs, [Extract i f])"
  using assms by (auto simp: in_bounds_def split: option.splits)

lemma run_batches_exec:
  assumes "in_bounds c i" and "fs (output_file c i) = None" and "ex f tok = Some j"
    and "run_batches c ex tok rest (fs(output_file c i \<mapsto> ArtifactJson j)) = (err, fs', evs)"
  shows "run_batches c ex tok ((i, f) # rest) fs =
           (err, fs', [Extract i f, WriteFile (output_file c i)]
                      @ (if use_wandb c then [WandbLog i] else []) @ evs)"
  using assms by (auto simp: in_bounds_def Let_def split: option.splits)

lemma run_batches_cases:
  assumes "run_batches c ex tok ((i, f) # rest) fs = (err, fs', evs)"
  obtains
    (skip) "\<not> in_bounds c i \<or> fs (output_file c i) \<noteq> None"
           "run_batches c ex tok rest fs = (err, fs', evs)"
  | (fail) "in_bounds c i" "fs (output_file c i) = None" "ex f tok = None"
           "err = Some ExtractionFailed" "fs' = fs" "evs = [Extract i f]"
  | (exec) j evs' where "in_bounds c i" "fs (output_file c i) = None" "ex f tok = Some j"
           "run_batches c ex tok rest (fs(output_file c i \<mapsto> ArtifactJson j)) = (err, fs', evs')"
           "evs = [Extract i f, WriteFile (output_file c i)]
                  @ (if use_wandb c then [WandbLog i] else []) @ evs'"
proof (cases "\<not> in_bounds c i \<or> fs (output_file c i) \<noteq> None")
  case True
  have "run_batches c ex tok ((i, f) # rest) fs = run_batches c ex tok rest fs"
    using True by (rule run_batches_skip)
  with assms True show ?thesis by (intro skip) simp_all
next
  case False
  then have ib: "in_bounds c i" and none: "fs (output_file c i) = None" by simp_all
  show ?thesis
  proof (cases "ex f tok")
    case None
    have "run_batches c ex tok ((i, f) # rest) fs = (Some ExtractionFailed, fs, [Extract i f])"
      using ib none None by (rule run_batches_fail)
    with assms show ?thesis
      by (intro fail [OF ib none None]) simp_all
  next
    case (Some j)
    obtain err1 fs1 evs1 where r:
      "run_batches c ex tok rest (fs(output_file c i \<mapsto> ArtifactJson j)) = (err1, fs1, evs1)"
      by (cases "run_batches c ex tok rest (fs(output_file c i \<mapsto> ArtifactJson j))")
    from run_batches_exec [OF ib none Some r] assms
    have "err = err1" "fs' = fs1"
      "evs = [Extract i f, WriteFile (output_file c i)]
             @ (if use_wandb c then [WandbLog i] else []) @ evs1" by simp_all
    with r show ?thesis by (intro exec [OF ib none Some]) simp_all
  qed
qed

lemma extract_calls_exec:
  "extract_calls ([Extract i f, WriteFile p] @ (if w then [WandbLog i] else []) @ evs)
   = i # extract_calls evs"
  by simp

lemma writes_exec:
  "writes ([Extract i f, WriteFile p] @ (if w then [WandbLog i] else []) @ evs)
   = p # writes evs"
  by simp

text \<open>What holds of every run of the loop, failed or not.\<close>

lemma run_batches_effects:
  assumes "run_batches c ex tok bs fs = (err, fs', evs)"
  shows "set (extract_calls evs) \<subseteq> {i \<in> fst ` set bs. in_bounds c i \<and> fs (output_file c i) = None}
       \<and> set (writes evs) \<subseteq> output_file c ` set (extract_calls evs)
       \<and> (\<forall>p. p \<notin> set (writes evs) \<longrightarrow> fs' p = fs p)
       \<and> (\<forall>p. fs p \<noteq> None \<longrightarrow> fs' p \<noteq> None)"
  using assms
proof (induction bs arbitrary: fs err fs' evs)
  case Nil
  then show ?case by simp
next
  case (Cons b bs)
  obtain i f where b: "b = (i, f)" by (cases b)
  from Cons.prems have run: "run_batches c ex tok ((i, f) # bs) fs = (err, fs', evs)"
    by (simp add: b)
  from run show ?case
  proof (cases rule: run_batches_cases)
    case skip
    from Cons.IH [OF skip(2)] show ?thesis by (auto simp: b)
  next
    case fail
    then show ?thesis by (simp add: b)
  next
    case (exec j evs')
    let ?fs1 = "fs(output_file c i \<mapsto> ArtifactJson j)"
    from Cons.IH [OF exec(4)] have ih:
      "set (extract_calls evs') \<subseteq> {k \<in> fst ` set bs. in_bounds c k \<and> ?fs1 (output_file c k) = None}"
      "set (writes evs') \<subseteq> output_file c ` set (extract_calls evs')"
      "\<forall>p. p \<notin> set (writes evs') \<longrightarrow> fs' p = ?fs1 p"
      "\<forall>p. ?fs1 p \<noteq> None \<longrightarrow> fs' p \<noteq> None" by simp_all
    have ec: "extract_calls evs = i # extract_calls evs'"
      unfolding exec(5) by (rule extract_calls_exec)
    have wr: "writes evs = output_file c i # writes evs'"
      unfolding exec(5) by (rule writes_exec)
    have 1: "set (extract_calls evs) \<subseteq> {k \<in> fst ` set (b # bs). in_bounds c k \<and> fs (output_file c k) = None}"
    proof
      fix k assume "k \<in> set (extract_calls evs)"
      then consider "k = i" | "k \<in> set (extract_calls evs')" unfolding ec by auto
      then show "k \<in> {k \<in> fst ` set (b # bs). in_bounds c k \<and> fs (output_file c k) = None}"
      proof cases
        case 1
        then show ?thesis using exec(1,2) by (simp add: b)
      next
        case 2
        with ih(1) have k: "k \<in> fst ` set bs" "in_bounds c k" "?fs1 (output_file c k) = None"
          by auto
        from k(3) have "fs (output_file c k) = None" by (simp split: if_splits)
        with k show ?thesis by simp
      qed
    qed
    have 2: "set (writes evs) \<subseteq> output_file c ` set (extract_calls evs)"
      unfolding ec wr using ih(2) by auto
    have 3: "\<forall>p. p \<notin> set (writes evs) \<longrightarrow> fs' p = fs p"
      unfolding wr using ih(3) by simp
    have 4: "\<forall>p. fs p \<noteq> None \<longrightarrow> fs' p \<noteq> None"
      using ih(4) by simp
    from 1 2 3 4 show ?thesis by blast
  qed
qed


lemma run_batches_calls:
  assumes "run_batches c ex tok bs fs = (None, fs', evs)" and "distinct (map fst bs)"
  shows "extract_calls evs
         = filter (\<lambda>i. in_bounds c i \<and> fs (output_file c i) = None) (map fst bs)"
  using assms
proof (induction bs arbitrary: fs fs' evs)
  case Nil
  then show ?case by simp
next
  case (Cons b bs)
  obtain i f where b: "b = (i, f)" by (cases b)
  from Cons.prems(1) have run: "run_batches c ex tok ((i, f) # bs) fs = (None, fs', evs)"
    by (simp add: b)
  from Cons.prems(2) have dist: "distinct (map fst bs)" and fresh: "i \<notin> fst ` set bs"
    by (simp_all add: b)
  from run show ?case
  proof (cases rule: run_batches_cases)
    case skip
    from Cons.IH [OF skip(2) dist] skip(1) show ?thesis by (auto simp: b)
  next
    case fail
    then show ?thesis by simp
  next
    case (exec j evs')
    let ?fs1 = "fs(output_file c i \<mapsto> ArtifactJson j)"
    have same: "?fs1 (output_file c k) = fs (output_file c k)" if "k \<in> set (map fst bs)" for k
    proof -
      from that fresh have "k \<noteq> i" by auto
      then have "output_file c k \<noteq> output_file c i" by (auto dest: output_file_inj)
      then show ?thesis by simp
    qed
    have "extract_calls evs = i # extract_calls evs'"
      unfolding exec(5) by (rule extract_calls_exec)
    also have "extract_calls evs'
        = filter (\<lambda>k. in_bounds c k \<and> ?fs1 (output_file c k) = None) (map fst bs)"
      by (rule Cons.IH [OF exec(4) dist])
    also have "\<dots> = filter (\<lambda>k. in_bounds c k \<and> fs (output_file c k) = None) (map fst bs)"
      by (rule filter_cong [OF refl]) (simp only: same)
    finally show ?thesis using exec(1,2) by (simp add: b)
  qed
qed

lemma run_batches_completes:
  assumes "run_batches c ex tok bs fs = (None, fs', evs)"
    and "(i, f) \<in> set bs" and "in_bounds c i"
  shows "fs' (output_file c i) \<noteq> None"
  using assms
proof (induction bs arbitrary: fs fs' evs)
  case Nil
  then show ?case by simp
next
  case (Cons b bs)
  obtain i0 f0 where b: "b = (i0, f0)" by (cases b)
  from Cons.prems(1) have run: "run_batches c ex tok ((i0, f0) # bs) fs = (None, fs', evs)"
    by (simp add: b)
  from run show ?case
  proof (cases rule: run_batches_cases)
    case skip
    show ?thesis
    proof (cases "(i, f) \<in> set bs")
      case True
      from Cons.IH [OF skip(2) True Cons.prems(3)] show ?thesis .
    next
      case False
      with Cons.prems(2) have "i = i0" by (simp add: b)
      with skip(1) Cons.prems(3) have "fs (output_file c i) \<noteq> None" by simp
      with run_batches_effects [OF skip(2)] show ?thesis by blast
    qed
  next
    case fail
    then show ?thesis by simp
  next
    case (exec j evs')
    show ?thesis
    proof (cases "(i, f) \<in> set bs")
      case True
      from Cons.IH [OF exec(4) True Cons.prems(3)] show ?thesis .
    next
      case False
      with Cons.prems(2) have "i = i0" by (simp add: b)
      then have "(fs(output_file c i0 \<mapsto> ArtifactJson j)) (output_file c i) \<noteq> None" by simp
      with run_batches_effects [OF exec(4)] show ?thesis by blast
    qed
  qed
qed

lemma run_batches_all_present:
  assumes "\<forall>(i, f) \<in> set bs. in_bounds c i \<longrightarrow> fs (output_file c i) \<noteq> None"
  shows "run_batches c ex tok bs fs = (None, fs, [])"
  using assms
proof (induction bs)
  case Nil
  show ?case by simp
next
  case (Cons b bs)
  obtain i f where b: "b = (i, f)" by (cases b)
  from Cons.prems have "\<not> in_bounds c i \<or> fs (output_file c i) \<noteq> None" by (auto simp: b)
  then have "run_batches c ex tok ((i, f) # bs) fs = run_batches c ex tok bs fs"
    by (rule run_batches_skip)
  moreover have "run_batches c ex tok bs fs = (None, fs, [])"
    using Cons.prems by (intro Cons.IH) simp
  ultimately show ?case by (simp add: b)
qed

text \<open>
  Claim C5.  When a run of the batch loop has completed, a second run over the same plan
  and the files the first run left calls the feature-extraction collaborator not once,
  writes nothing and leaves every file as it is.  In the first run, a batch whose artifact
  already exists is not extracted and its artifact is neither rewritten nor changed.
\<close>

theorem run_batches_second_run_idle:
  assumes "run_batches c ex tok (enumerate 0 plan) fs = (None, fs', evs)"
  shows "run_batches c ex tok (enumerate 0 plan) fs' = (None, fs', [])
       \<and> (\<forall>i. fs (output_file c i) \<noteq> None \<longrightarrow>
              i \<notin> set (extract_calls evs) \<and> output_file c i \<notin> set (writes evs)
              \<and> fs' (output_file c i) = fs (output_file c i))"
proof -
  have "\<forall>(i, f) \<in> set (enumerate 0 plan). in_bounds c i \<longrightarrow> fs' (output_file c i) \<noteq> None"
    using run_batches_completes [OF assms] by blast
  then have second: "run_batches c ex tok (enumerate 0 plan) fs' = (None, fs', [])"
    by (rule run_batches_all_present)
  from run_batches_effects [OF assms] have eff:
    "set (extract_calls evs) \<subseteq> {i \<in> fst ` set (enumerate 0 plan). in_bounds c i \<and> fs (output_file c i) = None}"
    "set (writes evs) \<subseteq> output_file c ` set (extract_calls evs)"
    "\<forall>p. p \<notin> set (writes evs) \<longrightarrow> fs' p = fs p" by simp_all
  have kept: "i \<notin> set (extract_calls evs) \<and> output_file c i \<notin> set (writes evs)
              \<and> fs' (output_file c i) = fs (output_file c i)"
    if ex: "fs (output_file c i) \<noteq> None" for i
  proof -
    from eff(1) ex have a: "i \<notin> set (extract_calls evs)" by auto
    have b: "output_file c i \<notin> set (writes evs)"
    proof
      assume "output_file c i \<in> set (writes evs)"
      with eff(2) obtain k where "k \<in> set (extract_calls evs)" "output_file c i = output_file c k"
        by auto
      with a output_file_inj show False by blast
    qed
    with eff(3) a show ?thesis by simp
  qed
  show ?thesis using second kept by blast
qed

text \<open>
  Witness for C5: three batches in an empty directory; the first run extracts all three,
  the second run over the resulting files does nothing.
\<close>

theorem run_batches_second_run_idle_witness:
  "fst first_run = None
   \<and> extract_calls (snd (snd first_run)) = [0, 1, 2]
   \<and> run_batches base_cfg constant_extract sample_tokens (enumerate 0 sample_plan)
         (fst (snd first_run)) = (None, fst (snd first_run), [])"
proof -
  have e: "fst first_run = None" by code_simp
  have c: "extract_calls (snd (snd first_run)) = [0, 1, 2]" by code_simp
  have r: "run_batches base_cfg constant_extract sample_tokens (enumerate 0 sample_plan)
             empty_dir = (None, fst (snd first_run), snd (snd first_run))"
    using e by (simp add: first_run_def prod_eq_iff)
  from run_batches_second_run_idle [OF r]
  have "run_batches base_cfg constant_extract sample_tokens (enumerate 0 sample_plan)
         (fst (snd first_run)) = (None, fst (snd first_run), [])" by (rule conjunct1)
  with e c show ?thesis by (intro conjI)
qed

lemma run_batches_bounds_general:
  assumes "run_batches c ex tok (enumerate 0 plan) fs = (err, fs', evs)"
  shows "(\<forall>i. \<not> in_bounds c i \<longrightarrow>
              i \<notin> set (extract_calls evs) \<and> output_file c i \<notin> set (writes evs)
              \<and> fs' (output_file c i) = fs (output_file c i))
       \<and> (err = None \<longrightarrow>
            extract_calls evs
            = filter (\<lambda>i. in_bounds c i \<and> fs (output_file c i) = None) [0..<length plan])"
proof -
  from run_batches_effects [OF assms] have eff:
    "set (extract_calls evs) \<subseteq> {i \<in> fst ` set (enumerate 0 plan). in_bounds c i \<and> fs (output_file c i) = None}"
    "set (writes evs) \<subseteq> output_file c ` set (extract_calls evs)"
    "\<forall>p. p \<notin> set (writes evs) \<longrightarrow> fs' p = fs p" by simp_all
  have skipped: "i \<notin> set (extract_calls evs) \<and> output_file c i \<notin> set (writes evs)
              \<and> fs' (output_file c i) = fs (output_file c i)"
    if out: "\<not> in_bounds c i" for i
  proof -
    from eff(1) out have a: "i \<notin> set (extract_calls evs)" by auto
    have b: "output_file c i \<notin> set (writes evs)"
    proof
      assume "output_file c i \<in> set (writes evs)"
      with eff(2) obtain k where "k \<in> set (extract_calls evs)" "output_file c i = output_file c k"
        by auto
      with a output_file_inj show False by blast
    qed
    with eff(3) a show ?thesis by simp
  qed
  have calls: "extract_calls evs
            = filter (\<lambda>i. in_bounds c i \<and> fs (output_file c i) = None) [0..<length plan]"
    if "err = None"
  proof -
    have d: "distinct (map fst (enumerate 0 plan))" by (simp add: map_fst_enumerate)
    from that assms have "run_batches c ex tok (enumerate 0 plan) fs = (None, fs', evs)" by simp
    from run_batches_calls [OF this d] show ?thesis by (simp add: map_fst_enumerate)
  qed
  show ?thesis using skipped calls by blast
qed

text \<open>
  Claim C6.  With \<open>start_batch = k\<close> and the inclusive \<open>end_batch = m\<close>, no batch with an
  ordinal below \<open>k\<close> or above \<open>m\<close> is handed to the extraction collaborator, and its
  artifact path is neither written nor changed, whether the loop completes or fails.
  When the loop completes, the batches extracted are, in ascending order, exactly those
  with \<open>k \<le> ordinal \<le> m\<close> that had no artifact yet; in a directory without artifacts
  these are all batches with \<open>k \<le> ordinal \<le> m\<close>.
\<close>

theorem run_batches_start_end_bounds:
  assumes "run_batches c ex tok (enumerate 0 plan) fs = (err, fs', evs)"
    and "start_batch c = k" and "end_batch c = Some m"
  shows "(\<forall>i. int i < k \<or> m < int i \<longrightarrow>
              i \<notin> set (extract_calls evs) \<and> output_file c i \<notin> set (writes evs)
              \<and> fs' (output_file c i) = fs (output_file c i))
       \<and> (err = None \<longrightarrow>
            extract_calls evs
            = filter (\<lambda>i. k \<le> int i \<and> int i \<le> m \<and> fs (output_file c i) = None)
                [0..<length plan])
       \<and> (err = None \<and> (\<forall>i < length plan. fs (output_file c i) = None) \<longrightarrow>
            extract_calls evs = filter (\<lambda>i. k \<le> int i \<and> int i \<le> m) [0..<length plan])"
proof -
  have ib: "in_bounds c i \<longleftrightarrow> k \<le> int i \<and> int i \<le> m" for i
    using assms(2,3) by (simp add: in_bounds_def)
  from run_batches_bounds_general [OF assms(1)] have g:
    "\<forall>i. \<not> in_bounds c i \<longrightarrow>
              i \<notin> set (extract_calls evs) \<and> output_file c i \<notin> set (writes evs)
              \<and> fs' (output_file c i) = fs (output_file c i)"
    "err = None \<longrightarrow>
            extract_calls evs
            = filter (\<lambda>i. in_bounds c i \<and> fs (output_file c i) = None) [0..<length plan]"
    by simp_all
  have 1: "\<forall>i. int i < k \<or> m < int i \<longrightarrow>
              i \<notin> set (extract_calls evs) \<and> output_file c i \<notin> set (writes evs)
              \<and> fs' (output_file c i) = fs (output_file c i)"
  proof (intro allI impI)
    fix i assume "int i < k \<or> m < int i"
    then have "\<not> in_bounds c i" unfolding ib by linarith
    with g(1) show "i \<notin> set (extract_calls evs) \<and> output_file c i \<notin> set (writes evs)
              \<and> fs' (output_file c i) = fs (output_file c i)" by simp
  qed
  have 2: "err = None \<longrightarrow> extract_calls evs
            = filter (\<lambda>i. k \<le> int i \<and> int i \<le> m \<and> fs (output_file c i) = None)
                [0..<length plan]"
    using g(2) by (simp add: ib conj_assoc)
  have 3: "err = None \<and> (\<forall>i < length plan. fs (output_file c i) = None) \<longrightarrow>
            extract_calls evs = filter (\<lambda>i. k \<le> int i \<and> int i \<le> m) [0..<length plan]"
  proof
    assume a: "err = None \<and> (\<forall>i < length plan. fs (output_file c i) = None)"
    with 2 have "extract_calls evs
            = filter (\<lambda>i. k \<le> int i \<and> int i \<le> m \<and> fs (output_file c i) = None)
                [0..<length plan]" by simp
    also have "\<dots> = filter (\<lambda>i. k \<le> int i \<and> int i \<le> m) [0..<length plan]"
      using a by (intro filter_cong [OF refl]) simp
    finally show "extract_calls evs = filter (\<lambda>i. k \<le> int i \<and> int i \<le> m) [0..<length plan]" .
  qed
  show ?thesis using 1 2 3 by (intro conjI)
qed

text \<open>
  Witness for C6, the spec's scenario: \<open>start_batch = 1\<close>, \<open>end_batch = 1\<close>, three
  batches, an empty directory; only the batch of ordinal \<open>1\<close> is extracted and written.
\<close>

theorem run_batches_start_end_bounds_witness:
  "fst bounded_run = None
   \<and> snd (snd bounded_run) = [Extract 1 [4, 5, 6], WriteFile ''out/batch-1.json'']
   \<and> extract_calls (snd (snd bounded_run))
       = filter (\<lambda>i. 1 \<le> int i \<and> int i \<le> 1) [0..<length sample_plan]
   \<and> extract_calls (snd (snd bounded_run)) = [1]"
proof -
  have e: "fst bounded_run = None" by code_simp
  have ev: "snd (snd bounded_run) = [Extract 1 [4, 5, 6], WriteFile ''out/batch-1.json'']"
    by code_simp
  have r: "run_batches bounded_cfg constant_extract sample_tokens (enumerate 0 sample_plan)
             empty_dir = (fst bounded_run, fst (snd bounded_run), snd (snd bounded_run))"
    by (simp add: bounded_run_def)
  have k: "start_batch bounded_cfg = 1" by (simp add: bounded_cfg_def base_cfg_def)
  have m: "end_batch bounded_cfg = Some 1" by (simp add: bounded_cfg_def base_cfg_def)
  have fresh: "\<forall>i < length sample_plan. empty_dir (output_file bounded_cfg i) = None"
    by (simp add: empty_dir_def)
  have "extract_calls (snd (snd bounded_run))
       = filter (\<lambda>i. 1 \<le> int i \<and> int i \<le> 1) [0..<length sample_plan]"
    using run_batches_start_end_bounds [OF r k m] e fresh by blast
  moreover have "extract_calls (snd (snd bounded_run)) = [1]" unfolding ev by simp
  ultimately show ?thesis using e ev by (intro conjI)
qed

section \<open>Properties of the whole run\<close>

lemma pull_batches_error:
  "pull_batches randperm shuffle n iters sc acc = Inl e \<Longrightarrow> e = SourceExhausted"
proof (induction iters arbitrary: sc acc)
  case 0
  then show ?case by (cases sc; cases acc) simp
next
  case (Suc iters)
  obtain st c where sc: "sc = (st, c)" by (cases sc)
  obtain seen kept where acc: "acc = (seen, kept)" by (cases acc)
  show ?case
  proof (cases "stream st")
    case Nil
    with Suc.prems show ?thesis by (simp add: sc acc get_batch_tokens_def)
  next
    case (Cons b bs)
    with Suc.prems Suc.IH show ?thesis
      by (auto simp: sc acc get_batch_tokens_def Let_def split: if_splits)
  qed
qed

lemma generate_tokens_error:
  assumes "generate_tokens r randperm st n = Inl e"
  shows "e \<in> {ZeroDivisionError, SourceExhausted, CatEmptyList, CatSizeMismatch}"
proof (cases "store_batch_size_prompts st = 0")
  case True
  with assms show ?thesis by (simp add: generate_tokens_def)
next
  case nz: False
  let ?pull = "pull_batches randperm (shuffle_tokens (cfg r)) n
                 (nat (n div store_batch_size_prompts st)) (st, 0) ({}, [])"
  show ?thesis
  proof (cases ?pull)
    case (Inl e')
    with assms nz have "e = e'" by (simp add: generate_tokens_def)
    with pull_batches_error [OF Inl] show ?thesis by simp
  next
    case (Inr res)
    obtain acc st' c where res: "res = (acc, st', c)" by (cases res)
    show ?thesis
    proof (cases "torch_cat_rows acc")
      case (Inl e')
      with assms nz Inr res have "e = e'" by (simp add: generate_tokens_def)
      moreover from Inl have "e' = CatEmptyList \<or> e' = CatSizeMismatch"
        by (cases acc) (auto simp: torch_cat_rows_def split: if_splits)
      ultimately show ?thesis by auto
    next
      case (Inr joined)
      with assms nz \<open>?pull = Inr res\<close> res show ?thesis
        by (cases "shuffle_tokens (cfg r)") (simp_all add: generate_tokens_def Let_def)
    qed
  qed
qed

lemma get_tokens_effects:
  assumes "get_tokens r randperm fs = (res, fs', ev)"
  shows "extract_calls ev = [] \<and> set (writes ev) \<subseteq> {tokens_file (cfg r)}
       \<and> res \<noteq> Inl PrefixSuffixTooLong"
proof (cases "fs (tokens_file (cfg r))")
  case None
  show ?thesis
  proof (cases "generate_tokens r randperm (activations_store r) (n_prompts_total (cfg r))")
    case (Inl e)
    from generate_tokens_error [OF Inl] have "e \<noteq> PrefixSuffixTooLong" by auto
    with assms None Inl show ?thesis by (auto simp: get_tokens_def)
  next
    case (Inr x)
    obtain t st' c where x: "x = (t, st', c)" by (cases x)
    from assms None Inr x show ?thesis
      by (auto simp: get_tokens_def check_no_duplicates_def split: if_splits)
  qed
next
  case (Some content)
  with assms show ?thesis
    by (cases content) (auto simp: get_tokens_def check_no_duplicates_def split: if_splits)
qed

lemma get_feature_batches_error:
  "get_feature_batches idx k = Inl e \<Longrightarrow> e = ZeroDivisionError \<or> e = SectionsNotPositive"
  by (auto simp: get_feature_batches_def ceil_div_def array_split_def Let_def split: if_splits)

lemma run_batches_error:
  "run_batches c ex tok bs fs = (Some e, fs', evs) \<Longrightarrow> e = ExtractionFailed"
proof (induction bs arbitrary: fs fs' evs)
  case Nil
  then show ?case by simp
next
  case (Cons b bs)
  obtain i f where b: "b = (i, f)" by (cases b)
  from Cons.prems have run: "run_batches c ex tok ((i, f) # bs) fs = (Some e, fs', evs)"
    by (simp add: b)
  from run show ?case
  proof (cases rule: run_batches_cases)
    case skip
    from Cons.IH [OF skip(2)] show ?thesis .
  next
    case fail
    then show ?thesis by simp
  next
    case (exec j evs')
    from Cons.IH [OF exec(4)] show ?thesis .
  qed
qed

lemma run_prefix_error_effects:
  assumes "run r ex randperm fs = (Raised PrefixSuffixTooLong, fs', evs)"
  shows "extract_calls evs = []
       \<and> set (writes evs) \<subseteq> {run_settings_path (cfg r), skipped_indexes_path (cfg r),
                                tokens_file (cfg r)}"
proof -
  let ?fs1 = "fs(run_settings_path (cfg r) \<mapsto> RunSettingsJson)"
  let ?ev1 = "[WriteFile (run_settings_path (cfg r))]
              @ (if use_wandb (cfg r) then [WandbInit] else [])"
  let ?target = "get_alive_features (sae_d_sae r)"
  let ?fs2 = "?fs1(skipped_indexes_path (cfg r) \<mapsto>
                SkippedIndexesJson (filter (\<lambda>i. i \<notin> set ?target) [0..<sae_d_sae r]))"
  let ?ev2 = "[WriteFile (skipped_indexes_path (cfg r))]"
  have ec1: "extract_calls ?ev1 = []" and w1: "writes ?ev1 = [run_settings_path (cfg r)]"
    by simp_all
  show ?thesis
  proof (cases "get_feature_batches ?target (n_features_at_a_time (cfg r))")
    case (Inl e)
    with assms get_feature_batches_error [OF Inl] show ?thesis
      by (auto simp: run_def Let_def)
  next
    case (Inr plan)
    show ?thesis
    proof (cases "int (length plan) \<le> start_batch (cfg r)")
      case True
      with assms Inr show ?thesis by (simp add: run_def Let_def)
    next
      case False
      obtain res fs3 ev3 where gt: "get_tokens r randperm ?fs2 = (res, fs3, ev3)"
        by (cases "get_tokens r randperm ?fs2")
      from get_tokens_effects [OF gt] have g: "extract_calls ev3 = []"
        "set (writes ev3) \<subseteq> {tokens_file (cfg r)}" "res \<noteq> Inl PrefixSuffixTooLong"
        by simp_all
      have pre: "extract_calls (?ev1 @ ?ev2 @ ev3) = []
         \<and> set (writes (?ev1 @ ?ev2 @ ev3)) \<subseteq> {run_settings_path (cfg r),
              skipped_indexes_path (cfg r), tokens_file (cfg r)}"
        using g(1,2) by (auto simp: extract_calls_append writes_append)
      show ?thesis
      proof (cases res)
        case (Inl e)
        with g(3) have "e \<noteq> PrefixSuffixTooLong" by simp
        with assms Inr False gt Inl show ?thesis
          by (simp add: run_def Let_def record_skipped_features_def)
      next
        case tok: (Inr tokens)
        show ?thesis
        proof (cases "add_prefix_suffix_to_tokens r tokens")
          case (Inl e)
          with assms Inr False gt tok have "evs = ?ev1 @ ?ev2 @ ev3"
            by (simp add: run_def Let_def record_skipped_features_def)
          with pre show ?thesis by simp
        next
          case aug: (Inr tokens')
          obtain err fs4 ev4 where
            rb: "run_batches (cfg r) ex tokens' (enumerate 0 plan) fs3 = (err, fs4, ev4)"
            by (cases "run_batches (cfg r) ex tokens' (enumerate 0 plan) fs3")
          show ?thesis
          proof (cases err)
            case None
            with assms Inr False gt tok aug rb show ?thesis
              by (simp add: run_def Let_def record_skipped_features_def)
          next
            case (Some e)
            with run_batches_error rb have "e = ExtractionFailed" by blast
            with assms Inr False gt tok aug rb Some show ?thesis
              by (simp add: run_def Let_def record_skipped_features_def)
          qed
        qed
      qed
    qed
  qed
qed


text \<open>
  Claim C10.  When \<open>start_batch\<close> is at least the number of batches of the computed
  plan, \<open>run\<close> exits right after computing the plan: the only file written is the run
  settings (written before the plan is computed), the skipped-feature record is not
  written, the token corpus is neither generated nor loaded, and no batch is extracted.
\<close>

theorem run_exits_when_start_batch_beyond_plan:
  assumes "feature_batch_plan (sae_d_sae r) (n_features_at_a_time (cfg r)) = Inr plan"
    and "int (length plan) \<le> start_batch (cfg r)"
  shows "run r ex randperm fs =
           (Exited, fs(run_settings_path (cfg r) \<mapsto> RunSettingsJson),
            [WriteFile (run_settings_path (cfg r))]
            @ (if use_wandb (cfg r) then [WandbInit] else []))
       \<and> skipped_indexes_path (cfg r) \<notin> set (writes (snd (snd (run r ex randperm fs))))
       \<and> GenerateTokens \<notin> set (snd (snd (run r ex randperm fs)))
       \<and> LoadFile (tokens_file (cfg r)) \<notin> set (snd (snd (run r ex randperm fs)))
       \<and> extract_calls (snd (snd (run r ex randperm fs))) = []"
proof -
  have eq: "run r ex randperm fs =
           (Exited, fs(run_settings_path (cfg r) \<mapsto> RunSettingsJson),
            [WriteFile (run_settings_path (cfg r))]
            @ (if use_wandb (cfg r) then [WandbInit] else []))"
    using assms by (simp add: run_def feature_batch_plan_def Let_def)
  have ne: "skipped_indexes_path (cfg r) \<noteq> run_settings_path (cfg r)"
    by (simp add: skipped_indexes_path_def run_settings_path_def RUN_SETTINGS_FILE_def)
  show ?thesis unfolding eq using ne by simp
qed

text \<open>Witness for C10: three batches, \<open>start_batch = 3\<close>.\<close>

theorem run_exits_when_start_batch_beyond_plan_witness:
  "feature_batch_plan (sae_d_sae late_start_runner)
       (n_features_at_a_time (cfg late_start_runner)) = Inr sample_plan
   \<and> int (length sample_plan) \<le> start_batch (cfg late_start_runner)
   \<and> fst (run late_start_runner constant_extract identity_randperm empty_dir) = Exited
   \<and> snd (snd (run late_start_runner constant_extract identity_randperm empty_dir))
       = [WriteFile ''out/run_settings.json'']
   \<and> skipped_indexes_path (cfg late_start_runner)
       \<notin> set (writes (snd (snd (run late_start_runner constant_extract identity_randperm
                                   empty_dir))))
   \<and> extract_calls (snd (snd (run late_start_runner constant_extract identity_randperm
                                empty_dir))) = []"
proof -
  have p: "feature_batch_plan (sae_d_sae late_start_runner)
       (n_features_at_a_time (cfg late_start_runner)) = Inr sample_plan"
    by code_simp
  have l: "int (length sample_plan) \<le> start_batch (cfg late_start_runner)"
    by (simp add: sample_plan_def late_start_runner_def base_runner_def base_cfg_def)
  note t = run_exits_when_start_batch_beyond_plan
             [OF p l, of constant_extract identity_randperm empty_dir]
  have 1: "fst (run late_start_runner constant_extract identity_randperm empty_dir) = Exited"
    using t by simp
  have 2: "snd (snd (run late_start_runner constant_extract identity_randperm empty_dir))
       = [WriteFile ''out/run_settings.json'']"
    by code_simp
  have 3: "skipped_indexes_path (cfg late_start_runner)
       \<notin> set (writes (snd (snd (run late_start_runner constant_extract identity_randperm
                                   empty_dir))))"
    and 4: "extract_calls (snd (snd (run late_start_runner constant_extract identity_randperm
                                empty_dir))) = []"
    using t by blast+
  show ?thesis using p l 1 2 3 4 by (intro conjI)
qed

lemma run_raises_prefix_error:
  assumes plan: "feature_batch_plan (sae_d_sae r) (n_features_at_a_time (cfg r)) = Inr plan"
    and start: "start_batch (cfg r) < int (length plan)"
    and toks: "get_tokens r randperm
                 (fst (record_skipped_features r (sae_d_sae r) (get_alive_features (sae_d_sae r))
                         (fs(run_settings_path (cfg r) \<mapsto> RunSettingsJson))))
               = (Inr tokens, fs3, ev3)"
    and aug: "add_prefix_suffix_to_tokens r tokens = Inl e"
  shows "run r ex randperm fs =
           (Raised e, fs3,
            [WriteFile (run_settings_path (cfg r))]
            @ (if use_wandb (cfg r) then [WandbInit] else [])
            @ [WriteFile (skipped_indexes_path (cfg r))] @ ev3)"
proof -
  have p: "get_feature_batches (get_alive_features (sae_d_sae r)) (n_features_at_a_time (cfg r))
           = Inr plan"
    using plan by (simp add: feature_batch_plan_def)
  have ns: "\<not> int (length plan) \<le> start_batch (cfg r)" using start by simp
  show ?thesis
    using toks aug
    unfolding run_def Let_def p
    by (simp add: ns record_skipped_features_def Let_def)
qed

lemma keep_length_error:
  assumes "0 < n_cols tokens"
    and "prefix_tokens (cfg r) \<noteq> None \<or> suffix_tokens (cfg r) \<noteq> None"
    and "int (n_cols tokens)
          \<le> int (case prefix_tokens (cfg r) of None \<Rightarrow> 0 | Some p \<Rightarrow> length p)
            + int (case suffix_tokens (cfg r) of None \<Rightarrow> 0 | Some s \<Rightarrow> length s)"
  shows "add_prefix_suffix_to_tokens r tokens = Inl PrefixSuffixTooLong"
  using assms by (auto simp: add_prefix_suffix_to_tokens_def Let_def)

text \<open>
  Claim C9, as amended.  More than one encoder flag is detected at construction:
  \<open>__init__\<close> raises and no runner exists to be run.  A prefix and suffix that leave
  \<open>keep_length \<le> 0\<close> are detected by \<open>add_prefix_suffix_to_tokens\<close>, and \<open>run\<close> calls it
  as soon as \<open>get_tokens\<close> has returned the corpus: whenever the plan is computed,
  \<open>start_batch\<close> is below the number of batches and the corpus is returned, \<open>run\<close>
  fails with this error, the run settings, the skipped-feature record and the events of
  \<open>get_tokens\<close> being all that has happened.  Whenever \<open>run\<close> fails with this error, no
  batch has been extracted and no file other than the run settings, the skipped-feature
  record and the token corpus has been written.
\<close>

theorem config_errors_detection:
  "(1 < length (filter id [use_transcoder c, use_skip_transcoder c, use_clt c]) \<longrightarrow>
      NeuronpediaRunner_init c ld fs0 = Inl ConflictingEncoderFlags)
   \<and> (0 < n_cols tokens \<and> (prefix_tokens (cfg r) \<noteq> None \<or> suffix_tokens (cfg r) \<noteq> None)
       \<and> int (n_cols tokens)
          \<le> int (case prefix_tokens (cfg r) of None \<Rightarrow> 0 | Some p \<Rightarrow> length p)
            + int (case suffix_tokens (cfg r) of None \<Rightarrow> 0 | Some s \<Rightarrow> length s) \<longrightarrow>
      add_prefix_suffix_to_tokens r tokens = Inl PrefixSuffixTooLong)
   \<and> (feature_batch_plan (sae_d_sae r) (n_features_at_a_time (cfg r)) = Inr plan
       \<and> start_batch (cfg r) < int (length plan)
       \<and> get_tokens r randperm
            (fst (record_skipped_features r (sae_d_sae r) (get_alive_features (sae_d_sae r))
                    (fs(run_settings_path (cfg r) \<mapsto> RunSettingsJson))))
          = (Inr tokens, fs3, ev3)
       \<and> 0 < n_cols tokens \<and> (prefix_tokens (cfg r) \<noteq> None \<or> suffix_tokens (cfg r) \<noteq> None)
       \<and> int (n_cols tokens)
          \<le> int (case prefix_tokens (cfg r) of None \<Rightarrow> 0 | Some p \<Rightarrow> length p)
            + int (case suffix_tokens (cfg r) of None \<Rightarrow> 0 | Some s \<Rightarrow> length s) \<longrightarrow>
      run r ex randperm fs =
        (Raised PrefixSuffixTooLong, fs3,
         [WriteFile (run_settings_path (cfg r))]
         @ (if use_wandb (cfg r) then [WandbInit] else [])
         @ [WriteFile (skipped_indexes_path (cfg r))] @ ev3))
   \<and> (run r ex randperm fs = (Raised PrefixSuffixTooLong, fs', evs) \<longrightarrow>
      extract_calls evs = []
      \<and> set (writes evs) \<subseteq> {run_settings_path (cfg r), skipped_indexes_path (cfg r),
                               tokens_file (cfg r)})"
proof (intro conjI impI)
  assume "1 < length (filter id [use_transcoder c, use_skip_transcoder c, use_clt c])"
  then have "validate_flags c = Some ConflictingEncoderFlags"
    by (auto simp: validate_flags_def split: if_splits)
  then show "NeuronpediaRunner_init c ld fs0 = Inl ConflictingEncoderFlags"
    by (simp add: NeuronpediaRunner_init_def)
next
  assume "0 < n_cols tokens \<and> (prefix_tokens (cfg r) \<noteq> None \<or> suffix_tokens (cfg r) \<noteq> None)
       \<and> int (n_cols tokens)
          \<le> int (case prefix_tokens (cfg r) of None \<Rightarrow> 0 | Some p \<Rightarrow> length p)
            + int (case suffix_tokens (cfg r) of None \<Rightarrow> 0 | Some s \<Rightarrow> length s)"
  then show "add_prefix_suffix_to_tokens r tokens = Inl PrefixSuffixTooLong"
    by (intro keep_length_error) simp_all
next
  assume a: "feature_batch_plan (sae_d_sae r) (n_features_at_a_time (cfg r)) = Inr plan
       \<and> start_batch (cfg r) < int (length plan)
       \<and> get_tokens r randperm
            (fst (record_skipped_features r (sae_d_sae r) (get_alive_features (sae_d_sae r))
                    (fs(run_settings_path (cfg r) \<mapsto> RunSettingsJson))))
          = (Inr tokens, fs3, ev3)
       \<and> 0 < n_cols tokens \<and> (prefix_tokens (cfg r) \<noteq> None \<or> suffix_tokens (cfg r) \<noteq> None)
       \<and> int (n_cols tokens)
          \<le> int (case prefix_tokens (cfg r) of None \<Rightarrow> 0 | Some p \<Rightarrow> length p)
            + int (case suffix_tokens (cfg r) of None \<Rightarrow> 0 | Some s \<Rightarrow> length s)"
  then have aug: "add_prefix_suffix_to_tokens r tokens = Inl PrefixSuffixTooLong"
    by (intro keep_length_error) simp_all
  from a have p: "feature_batch_plan (sae_d_sae r) (n_features_at_a_time (cfg r)) = Inr plan"
    and s: "start_batch (cfg r) < int (length plan)"
    and g: "get_tokens r randperm
            (fst (record_skipped_features r (sae_d_sae r) (get_alive_features (sae_d_sae r))
                    (fs(run_settings_path (cfg r) \<mapsto> RunSettingsJson))))
          = (Inr tokens, fs3, ev3)" by simp_all
  show "run r ex randperm fs =
        (Raised PrefixSuffixTooLong, fs3,
         [WriteFile (run_settings_path (cfg r))]
         @ (if use_wandb (cfg r) then [WandbInit] else [])
         @ [WriteFile (skipped_indexes_path (cfg r))] @ ev3)"
    by (rule run_raises_prefix_error [OF p s g aug])
next
  assume "run r ex randperm fs = (Raised PrefixSuffixTooLong, fs', evs)"
  from run_prefix_error_effects [OF this]
  show "extract_calls evs = []"
    and "set (writes evs) \<subseteq> {run_settings_path (cfg r), skipped_indexes_path (cfg r),
                               tokens_file (cfg r)}" by simp_all
qed

text \<open>
  Witness for the amended C9: two flags set at construction; a one-token prefix over the
  scenario source, whose sequences have length one, with the runner as \<open>__init__\<close>
  builds it.
\<close>

theorem config_errors_detection_witness:
  "1 < length (filter id [use_transcoder conflicting_cfg, use_skip_transcoder conflicting_cfg,
                           use_clt conflicting_cfg])
   \<and> NeuronpediaRunner_init conflicting_cfg sample_loaded empty_dir
       = Inl ConflictingEncoderFlags
   \<and> NeuronpediaRunner_init long_prefix_cfg sample_loaded empty_dir = Inr long_prefix_runner
   \<and> fst long_prefix_corpus_step
       = Inr \<lparr>n_cols = 1, rows = [[1], [2], [3], [4], [6], [7], [8]]\<rparr>
   \<and> add_prefix_suffix_to_tokens long_prefix_runner
         \<lparr>n_cols = 1, rows = [[1], [2], [3], [4], [6], [7], [8]]\<rparr> = Inl PrefixSuffixTooLong
   \<and> run long_prefix_runner constant_extract identity_randperm empty_dir
       = (Raised PrefixSuffixTooLong, fst (snd long_prefix_corpus_step),
          [WriteFile (run_settings_path (cfg long_prefix_runner))]
          @ (if use_wandb (cfg long_prefix_runner) then [WandbInit] else [])
          @ [WriteFile (skipped_indexes_path (cfg long_prefix_runner))]
          @ snd (snd long_prefix_corpus_step))
   \<and> extract_calls (snd (snd (run long_prefix_runner constant_extract identity_randperm
                                empty_dir))) = []"
proof -
  let ?R = "run long_prefix_runner constant_extract identity_randperm empty_dir"
  let ?T = "\<lparr>n_cols = 1, rows = [[1], [2], [3], [4], [6], [7], [8]]\<rparr>"
  note t = config_errors_detection
             [where c = conflicting_cfg and ld = sample_loaded and ?fs0.0 = empty_dir
                and tokens = ?T and r = long_prefix_runner and plan = sample_plan
                and ex = constant_extract and randperm = identity_randperm
                and fs = empty_dir and ?fs3.0 = "fst (snd long_prefix_corpus_step)"
                and ?ev3.0 = "snd (snd long_prefix_corpus_step)"
                and fs' = "fst (snd ?R)" and evs = "snd (snd ?R)"]
  have h1: "1 < length (filter id [use_transcoder conflicting_cfg,
                           use_skip_transcoder conflicting_cfg, use_clt conflicting_cfg])"
    by (simp add: conflicting_cfg_def base_cfg_def)
  have c: "NeuronpediaRunner_init long_prefix_cfg sample_loaded empty_dir
           = Inr long_prefix_runner"
    by code_simp
  have g: "fst long_prefix_corpus_step = Inr ?T" by code_simp
  have h2: "0 < n_cols ?T
       \<and> (prefix_tokens (cfg long_prefix_runner) \<noteq> None
          \<or> suffix_tokens (cfg long_prefix_runner) \<noteq> None)
       \<and> int (n_cols ?T)
          \<le> int (case prefix_tokens (cfg long_prefix_runner) of None \<Rightarrow> 0 | Some p \<Rightarrow> length p)
            + int (case suffix_tokens (cfg long_prefix_runner) of None \<Rightarrow> 0 | Some s \<Rightarrow> length s)"
    by (simp add: long_prefix_runner_def long_prefix_cfg_def base_cfg_def)
  have p: "feature_batch_plan (sae_d_sae long_prefix_runner)
             (n_features_at_a_time (cfg long_prefix_runner)) = Inr sample_plan"
    by code_simp
  have s: "start_batch (cfg long_prefix_runner) < int (length sample_plan)"
    by (simp add: long_prefix_runner_def long_prefix_cfg_def base_cfg_def sample_plan_def)
  have gt: "get_tokens long_prefix_runner identity_randperm
              (fst (record_skipped_features long_prefix_runner (sae_d_sae long_prefix_runner)
                      (get_alive_features (sae_d_sae long_prefix_runner))
                      (empty_dir(run_settings_path (cfg long_prefix_runner) \<mapsto> RunSettingsJson))))
            = (Inr ?T, fst (snd long_prefix_corpus_step), snd (snd long_prefix_corpus_step))"
    using g by (simp add: long_prefix_corpus_step_def prod_eq_iff)
  have 1: "NeuronpediaRunner_init conflicting_cfg sample_loaded empty_dir
           = Inl ConflictingEncoderFlags"
    using t h1 by blast
  have 2: "add_prefix_suffix_to_tokens long_prefix_runner ?T = Inl PrefixSuffixTooLong"
    using t h2 by blast
  have 3: "?R = (Raised PrefixSuffixTooLong, fst (snd long_prefix_corpus_step),
          [WriteFile (run_settings_path (cfg long_prefix_runner))]
          @ (if use_wandb (cfg long_prefix_runner) then [WandbInit] else [])
          @ [WriteFile (skipped_indexes_path (cfg long_prefix_runner))]
          @ snd (snd long_prefix_corpus_step))"
    using t p s gt h2 by blast
  have h4: "?R = (Raised PrefixSuffixTooLong, fst (snd ?R), snd (snd ?R))"
    using 3 by (simp add: prod_eq_iff)
  have 4: "extract_calls (snd (snd ?R)) = []"
    using t h4 by blast
  show ?thesis using h1 1 c g 2 3 4 by (intro conjI)
qed

text \<open>
  Claim C9 as stated fails for the prefix error: with a one-token prefix over sequences
  of length one the construction succeeds, and the error is raised inside \<open>run\<close> only
  after the run settings, the skipped-feature record and the generated token corpus
  have been written.
\<close>

theorem prefix_error_not_at_construction_counterexample:
  "NeuronpediaRunner_init long_prefix_cfg sample_loaded empty_dir = Inr long_prefix_runner
   \<and> fst (run long_prefix_runner constant_extract identity_randperm empty_dir)
     = Raised PrefixSuffixTooLong
   \<and> snd (snd (run long_prefix_runner constant_extract identity_randperm empty_dir))
     = [WriteFile ''out/gpt2-small_res-jb_blocks.0.hook_resid_pre_10/run_settings.json'',
        WriteFile ''out/gpt2-small_res-jb_blocks.0.hook_resid_pre_10/skipped_indexes.json'',
        GenerateTokens,
        WriteFile ''out/gpt2-small_res-jb_blocks.0.hook_resid_pre_10/tokens_8.pt'']"
  by code_simp

end
